theory Spec2Isabelle
  imports Complex_Main "HOL-Library.Multiset" "HOL-Library.Log_Nat"
begin

section \<open>Values, series and candidate tables\<close>

text \<open>Exceptions of the Python code are values.\<close>

datatype error =
    KeyError
  | IndexError
  | TypeError
  | ValueError
  | StrictValidationError

text \<open>
  Modelled from the spec: the class \<open>Dummy\<close> is imported from \<open>baybe.utils\<close>, whose source
  is missing. The spec describes an instance as a sentinel that compares equal only to
  itself and never to a genuine data value. \<open>DependenciesConstraint.get_invalid\<close> creates
  one instance per iteration \<open>k\<close> of its first loop, so the instance of iteration \<open>k\<close> is
  \<open>Dummy k\<close>.

  The other cells of a data frame: Python numbers are \<open>Num\<close> (the number as a real, so
  \<open>1 == 1.0\<close> holds as in Python; a float is a real that \<open>to_double\<close> below leaves
  unchanged), strings are \<open>Str\<close>, a missing entry
  (\<open>NaN\<close>/\<open>None\<close>) is \<open>NaN\<close>, and \<open>Zipped\<close> is the 2-tuple built by \<open>zip\<close> in
  \<open>DependenciesConstraint.get_invalid\<close>. Two missing entries count as equal, as they do
  for \<open>duplicated\<close> and \<open>nunique\<close>.
\<close>

datatype val = Num real | Str string | NaN | Dummy nat | Zipped val val


text \<open>
  A data frame is kept row by row: the column labels, and for every row its identifier
  (an entry of \<open>data.index\<close>) with the cells as an association list from column label
  to value, in column order.
\<close>

type_synonym row = "(string \<times> val) list"

record table =
  columns :: "string list"
  rows :: "(nat \<times> row) list"

definition index :: "table \<Rightarrow> nat list" where
  "index t = map fst (rows t)"

definition cell :: "row \<Rightarrow> string \<Rightarrow> val" where
  "cell r c = (case map_of r c of Some v \<Rightarrow> v | None \<Rightarrow> NaN)"


text \<open>\<open>data[c]\<close>: the column as a series of values, \<open>KeyError\<close> for an unknown label.\<close>

definition getcol :: "table \<Rightarrow> string \<Rightarrow> error + val list" where
  "getcol t c =
     (if c \<in> set (columns t) then Inr (map (\<lambda>(i, r). cell r c) (rows t))
      else Inl KeyError)"

text \<open>\<open>data[cs]\<close> for a list of labels, read row by row: the values of each row in the order of \<open>cs\<close>.\<close>

definition getcols :: "table \<Rightarrow> string list \<Rightarrow> error + val list list" where
  "getcols t cs =
     (if set cs \<subseteq> set (columns t) then Inr (map (\<lambda>(i, r). map (cell r) cs) (rows t))
      else Inl KeyError)"

text \<open>\<open>data.index[mask]\<close>: the identifiers of the rows where the boolean mask is true.\<close>

definition index_where :: "table \<Rightarrow> bool list \<Rightarrow> nat list" where
  "index_where t bs = map fst (filter snd (zip (index t) bs))"

section \<open>Conditions\<close>

record ThresholdCondition =
  threshold :: real
  operator :: string
  tolerance :: "real option"

record SubSelectionCondition =
  selection :: "string list"

datatype Condition = Threshold ThresholdCondition | SubSelection SubSelectionCondition

text \<open>
  numpy computes in IEEE 754 binary64. \<open>to_double\<close> rounds a real to the nearest number
  \<open>m * 2 ^ k\<close> with \<open>\<bar>m\<bar> < 2 ^ 53\<close> and \<open>- 1074 \<le> k\<close>, ties to the even \<open>m\<close>: \<open>exponent x\<close> is the
  \<open>e\<close> with \<open>2 ^ e \<le> \<bar>x\<bar> < 2 ^ (e + 1)\<close>, and the spacing of the doubles around \<open>x\<close> is
  \<open>2 ^ (e - 52)\<close>, or \<open>2 ^ (- 1074)\<close> for a subnormal \<open>x\<close>. The exponent is not bounded from above:
  a result beyond the largest double stays a finite number above every double, where
  numpy has the infinity.
\<close>

definition pow2 :: "int \<Rightarrow> real" where
  "pow2 e = (if 0 \<le> e then 2 ^ nat e else 1 / 2 ^ nat (- e))"

definition round_half_even :: "real \<Rightarrow> int" where
  "round_half_even r =
     (let f = \<lfloor>r\<rfloor>; d = r - of_int f
      in if d < 1 / 2 then f else if 1 / 2 < d then f + 1 else if even f then f else f + 1)"

definition exponent :: "real \<Rightarrow> int" where
  "exponent x =
     (if 1 \<le> \<bar>x\<bar> then bitlen \<lfloor>\<bar>x\<bar>\<rfloor> - 1 else - bitlen (\<lceil>1 / \<bar>x\<bar>\<rceil> - 1))"

definition to_double :: "real \<Rightarrow> real" where
  "to_double x =
     (if x = 0 then 0
      else let q = pow2 (max (exponent x) (- 1022) - 52)
           in of_int (round_half_even (x / q)) * q)"



text \<open>
  \<open>numpy.isclose(x, y, rtol, atol)\<close> on one element, and its counterpart \<open>_is_not_close\<close>.
  For finite numbers numpy returns \<open>less_equal(abs(x - y), atol + rtol * abs(y))\<close> on
  float64 operands: an integer element, the threshold and the tolerances are converted to
  float64, and the difference, the product and the sum are each rounded. A missing value
  is close to nothing. (From numpy 2.0 on the result is joined with \<open>x == y\<close>, which
  matters for a negative \<open>atol\<close> only; the formula here is the one of numpy 1.)
\<close>

fun isclose :: "val \<Rightarrow> real \<Rightarrow> real \<Rightarrow> real \<Rightarrow> bool" where
  "isclose (Num x) y rtol atol =
     (\<bar>to_double (to_double x - to_double y)\<bar>
        \<le> to_double (to_double atol + to_double (to_double rtol * \<bar>to_double y\<bar>)))"
| "isclose v y rtol atol = False"

definition is_not_close :: "val \<Rightarrow> real \<Rightarrow> real \<Rightarrow> real \<Rightarrow> bool" where
  "is_not_close x y rtol atol = (\<not> isclose x y rtol atol)"

text \<open>
  The comparisons of module \<open>operator\<close> on one element. \<open>Series.apply\<close> hands the elements
  over as Python numbers, and Python compares two numbers by their exact values, also an
  \<open>int\<close> with a \<open>float\<close>. A comparison with \<open>NaN\<close> is false.
\<close>

fun compare :: "(real \<Rightarrow> real \<Rightarrow> bool) \<Rightarrow> val \<Rightarrow> real \<Rightarrow> bool" where
  "compare f (Num x) y = f x y"
| "compare f v y = False"

text \<open>
  The table \<open>_threshold_operators\<close>. An entry is either a plain binary comparison or a
  closeness test with \<open>rtol = 0.0\<close> already supplied, which still accepts \<open>atol\<close>.
\<close>

datatype opfun = Binary "val \<Rightarrow> real \<Rightarrow> bool" | Close "val \<Rightarrow> real \<Rightarrow> real \<Rightarrow> bool"

definition threshold_operators :: "(string \<times> opfun) list" where
  "threshold_operators =
     [(''<'', Binary (compare (<))),
      (''<='', Binary (compare (\<le>))),
      (''='', Close (\<lambda>x y. isclose x y 0)),
      (''=='', Close (\<lambda>x y. isclose x y 0)),
      (''!='', Close (\<lambda>x y. is_not_close x y 0)),
      (''>'', Binary (compare (>))),
      (''>='', Binary (compare (\<ge>)))]"

definition valid_tolerance_operators :: "string list" where
  "valid_tolerance_operators = [''='', ''=='', ''!='']"

text \<open>
  The function \<open>func\<close> that \<open>ThresholdCondition.evaluate\<close> builds and applies to every
  element: the threshold is the second argument, and \<open>atol = self.tolerance\<close> is passed
  exactly for the operators of \<open>_valid_tolerance_operators\<close>. A tolerance of \<open>None\<close> makes
  numpy raise \<open>TypeError\<close>; a plain comparison that is handed \<open>atol\<close> would raise
  \<open>TypeError\<close> as well, and a closeness test without \<open>atol\<close> uses numpy's default.
\<close>

definition threshold_func :: "ThresholdCondition \<Rightarrow> opfun \<Rightarrow> val \<Rightarrow> error + bool" where
  "threshold_func self f x =
     (if operator self \<in> set valid_tolerance_operators then
        (case f of
           Binary g \<Rightarrow> Inl TypeError
         | Close g \<Rightarrow>
             (case tolerance self of
                None \<Rightarrow> Inl TypeError
              | Some atol \<Rightarrow> Inr (g x (threshold self) atol)))
      else
        (case f of
           Binary g \<Rightarrow> Inr (g x (threshold self))
         | Close g \<Rightarrow> Inr (g x (threshold self) (1 / 10 ^ 8))))"

text \<open>\<open>Series.apply\<close>: element by element, the first exception ends the call.\<close>

fun series_apply :: "('a \<Rightarrow> error + 'b) \<Rightarrow> 'a list \<Rightarrow> error + 'b list" where
  "series_apply f [] = Inr []"
| "series_apply f (x # xs) =
     (case f x of
        Inl e \<Rightarrow> Inl e
      | Inr y \<Rightarrow> (case series_apply f xs of Inl e \<Rightarrow> Inl e | Inr ys \<Rightarrow> Inr (y # ys)))"

text \<open>
  The dtype of a series is read off its values: the kind is one of \<open>iufb\<close> when every
  value is a number or a missing float. This is the dtype that pandas infers for a column
  with at least one number in it. A table does not record a dtype of its own: a column
  without any number (an empty one, or one of missing values only) counts as numeric
  here, and so does a column of numbers that a frame holds with dtype \<open>object\<close>, where the
  code raises \<open>StrictValidationError\<close>.
\<close>

fun is_numeric :: "val \<Rightarrow> bool" where
  "is_numeric (Num x) = True"
| "is_numeric NaN = True"
| "is_numeric v = False"

definition numeric_dtype :: "val list \<Rightarrow> bool" where
  "numeric_dtype data = list_all is_numeric data"

fun isin :: "val \<Rightarrow> string list \<Rightarrow> bool" where
  "isin (Str s) sel = (s \<in> set sel)"
| "isin v sel = False"

fun evaluate :: "Condition \<Rightarrow> val list \<Rightarrow> error + bool list" where
  "evaluate (Threshold self) data =
     (if \<not> numeric_dtype data then Inl StrictValidationError
      else
        (case map_of threshold_operators (operator self) of
           None \<Rightarrow> Inl KeyError
         | Some f \<Rightarrow> series_apply (threshold_func self f) data))"
| "evaluate (SubSelection self) data = Inr (map (\<lambda>v. isin v (selection self)) data)"

text \<open>The result of a condition on a single value: the mask of the one-element series.\<close>

definition cond_holds :: "Condition \<Rightarrow> val \<Rightarrow> bool" where
  "cond_holds c v = (case evaluate c [v] of Inr [b] \<Rightarrow> b | _ \<Rightarrow> False)"

section \<open>Constraints\<close>

record Constraint =
  parameters :: "string list"

text \<open>The attrs validator \<open>validate_params\<close> of the field \<open>parameters\<close>.\<close>

definition validate_params :: "string list \<Rightarrow> error + unit" where
  "validate_params params =
     (if length params \<noteq> card (set params) then Inl StrictValidationError else Inr ())"

subsection \<open>ExcludeConstraint\<close>

record ExcludeConstraint = Constraint +
  conditions :: "Condition list"
  combiner :: string

definition valid_logic_combiners :: "(string \<times> (bool \<Rightarrow> bool \<Rightarrow> bool)) list" where
  "valid_logic_combiners = [(''AND'', (\<and>)), (''OR'', (\<or>)), (''XOR'', (\<noteq>))]"

text \<open>
  The constructor that attrs generates: the fields are set, then the validators run in
  field order (\<open>validate_params\<close>, \<open>min_len(1)\<close>, \<open>in_(_valid_logic_combiners.keys())\<close>).
  \<open>min_len\<close> and \<open>in_\<close> raise \<open>ValueError\<close>; every failed validation is reported as
  \<open>StrictValidationError\<close> here.
\<close>

definition new_ExcludeConstraint ::
  "string list \<Rightarrow> Condition list \<Rightarrow> string \<Rightarrow> error + ExcludeConstraint" where
  "new_ExcludeConstraint ps cs cb =
     (case validate_params ps of
        Inl e \<Rightarrow> Inl e
      | Inr u \<Rightarrow>
          if length cs < 1 then Inl StrictValidationError
          else if cb \<notin> set (map fst valid_logic_combiners) then Inl StrictValidationError
          else Inr \<lparr>parameters = ps, ExcludeConstraint.conditions = cs, combiner = cb\<rparr>)"

text \<open>
  The list comprehension over \<open>enumerate(self.conditions)\<close>, from position \<open>k\<close> on:
  \<open>self.parameters[k]\<close> raises \<open>IndexError\<close> out of range, \<open>data[...]\<close> raises \<open>KeyError\<close>,
  and \<open>evaluate\<close> may raise.
\<close>

fun exclude_satisfied ::
  "table \<Rightarrow> string list \<Rightarrow> nat \<Rightarrow> Condition list \<Rightarrow> error + bool list list" where
  "exclude_satisfied data ps k [] = Inr []"
| "exclude_satisfied data ps k (cond # conds) =
     (if length ps \<le> k then Inl IndexError
      else
        (case getcol data (ps ! k) of
           Inl e \<Rightarrow> Inl e
         | Inr col \<Rightarrow>
             (case evaluate cond col of
                Inl e \<Rightarrow> Inl e
              | Inr m \<Rightarrow>
                  (case exclude_satisfied data ps (Suc k) conds of
                     Inl e \<Rightarrow> Inl e
                   | Inr ms \<Rightarrow> Inr (m # ms)))))"

text \<open>\<open>functools.reduce\<close> without initial value: \<open>TypeError\<close> on the empty sequence.\<close>

fun reduce :: "('a \<Rightarrow> 'a \<Rightarrow> 'a) \<Rightarrow> 'a list \<Rightarrow> error + 'a" where
  "reduce f [] = Inl TypeError"
| "reduce f (x # xs) = Inr (foldl f x xs)"

definition exclude_get_invalid :: "ExcludeConstraint \<Rightarrow> table \<Rightarrow> error + nat list" where
  "exclude_get_invalid self data =
     (case exclude_satisfied data (parameters self) 0 (ExcludeConstraint.conditions self) of
        Inl e \<Rightarrow> Inl e
      | Inr satisfied \<Rightarrow>
          (case map_of valid_logic_combiners (combiner self) of
             None \<Rightarrow> Inl KeyError
           | Some g \<Rightarrow>
               (case reduce (map2 g) satisfied of
                  Inl e \<Rightarrow> Inl e
                | Inr res \<Rightarrow> Inr (index_where data res))))"

text \<open>
  The per-parameter condition results of one row: condition \<open>k\<close> is paired with the
  cell of column \<open>parameters[k]\<close>.
\<close>

definition condition_results :: "ExcludeConstraint \<Rightarrow> row \<Rightarrow> bool list" where
  "condition_results self r =
     map (\<lambda>(cond, p). cond_holds cond (cell r p)) (zip (ExcludeConstraint.conditions self) (parameters self))"

subsection \<open>SumConstraint and ProductConstraint\<close>

record SumConstraint = Constraint +
  condition :: ThresholdCondition

record ProductConstraint = Constraint +
  condition :: ThresholdCondition

text \<open>
  \<open>DataFrame.sum(axis=1)\<close> and \<open>DataFrame.prod(axis=1)\<close> skip missing values. On a frame
  with a non-numeric cell either pandas fails to reduce or the threshold condition
  rejects the resulting series; the call ends with an exception, reported as
  \<open>TypeError\<close>. The sum and the product of a row are the exact ones here. pandas reduces
  in the dtype of the columns, which a table does not record: a float64 result is
  rounded and an int64 result wraps around, so the number in the result differs from
  the one here where the exact value is no float64 number or leaves the int64 range.
  What is proved below about these two constraints is that the store is left as it is
  and that the returned identifiers belong to the table's index, whatever the number.
\<close>

fun number_or :: "real \<Rightarrow> val \<Rightarrow> real" where
  "number_or d (Num x) = x"
| "number_or d v = d"

definition row_sum :: "val list \<Rightarrow> val" where
  "row_sum vs = Num (sum_list (map (number_or 0) vs))"

definition row_prod :: "val list \<Rightarrow> val" where
  "row_prod vs = Num (prod_list (map (number_or 1) vs))"

definition numeric_frame :: "val list list \<Rightarrow> bool" where
  "numeric_frame vals = list_all (list_all is_numeric) vals"

definition sum_get_invalid :: "SumConstraint \<Rightarrow> table \<Rightarrow> error + nat list" where
  "sum_get_invalid self data =
     (case getcols data (parameters self) of
        Inl e \<Rightarrow> Inl e
      | Inr vals \<Rightarrow>
          if \<not> numeric_frame vals then Inl TypeError
          else
            (case evaluate (Threshold (SumConstraint.condition self)) (map row_sum vals) of
               Inl e \<Rightarrow> Inl e
             | Inr m \<Rightarrow> Inr (index_where data (map Not m))))"

definition product_get_invalid :: "ProductConstraint \<Rightarrow> table \<Rightarrow> error + nat list" where
  "product_get_invalid self data =
     (case getcols data (parameters self) of
        Inl e \<Rightarrow> Inl e
      | Inr vals \<Rightarrow>
          if \<not> numeric_frame vals then Inl TypeError
          else
            (case evaluate (Threshold (ProductConstraint.condition self)) (map row_prod vals) of
               Inl e \<Rightarrow> Inl e
             | Inr m \<Rightarrow> Inr (index_where data (map Not m))))"

subsection \<open>NoLabelDuplicatesConstraint and LinkedParametersConstraint\<close>

text \<open>
  \<open>nunique(axis=1)\<close> with its default \<open>dropna=True\<close>: the number of distinct values of a
  row that are not missing.
\<close>

definition nunique :: "val list \<Rightarrow> nat" where
  "nunique vs = length (remdups (filter (\<lambda>v. v \<noteq> NaN) vs))"

text \<open>Both classes have the field \<open>parameters\<close> alone and inherit the constructor.\<close>

definition new_Constraint :: "string list \<Rightarrow> error + Constraint" where
  "new_Constraint ps =
     (case validate_params ps of Inl e \<Rightarrow> Inl e | Inr u \<Rightarrow> Inr \<lparr>parameters = ps\<rparr>)"

definition nolabel_get_invalid :: "Constraint \<Rightarrow> table \<Rightarrow> error + nat list" where
  "nolabel_get_invalid self data =
     (case getcols data (parameters self) of
        Inl e \<Rightarrow> Inl e
      | Inr vals \<Rightarrow>
          Inr (index_where data (map (\<lambda>vs. nunique vs \<noteq> length (parameters self)) vals)))"

definition linked_get_invalid :: "Constraint \<Rightarrow> table \<Rightarrow> error + nat list" where
  "linked_get_invalid self data =
     (case getcols data (parameters self) of
        Inl e \<Rightarrow> Inl e
      | Inr vals \<Rightarrow> Inr (index_where data (map (\<lambda>vs. nunique vs \<noteq> 1) vals)))"

subsection \<open>CustomConstraint\<close>

text \<open>
  The validator is a predicate on the row restricted to \<open>parameters\<close>, which it receives
  as a labelled series.
\<close>

record CustomConstraint = Constraint +
  validator :: "row \<Rightarrow> bool"

definition custom_get_invalid :: "CustomConstraint \<Rightarrow> table \<Rightarrow> error + nat list" where
  "custom_get_invalid self data =
     (case getcols data (parameters self) of
        Inl e \<Rightarrow> Inl e
      | Inr vals \<Rightarrow>
          Inr (index_where data
                 (map (\<lambda>vs. \<not> validator self (zip (parameters self) vs)) vals)))"

section \<open>Data frames as objects\<close>

text \<open>
  Data frames are mutable objects, and \<open>get_invalid\<close> receives a reference. The store
  holds the data frames; an address is a position in it. A new object is put behind
  all existing ones.
\<close>

type_synonym heap = "table list"

definition df_new :: "heap \<Rightarrow> table \<Rightarrow> heap \<times> nat" where
  "df_new h t = (h @ [t], length h)"

text \<open>\<open>data.copy()\<close>: a new object with the same content.\<close>

definition df_copy :: "heap \<Rightarrow> nat \<Rightarrow> heap \<times> nat" where
  "df_copy h a = df_new h (h ! a)"

text \<open>
  A \<open>for\<close> loop whose body works on the store and may raise: the first exception ends
  the loop, and the store stays as the body left it.
\<close>

fun for_loop ::
  "('k \<Rightarrow> heap \<Rightarrow> (error + unit) \<times> heap) \<Rightarrow> 'k list \<Rightarrow> heap \<Rightarrow> (error + unit) \<times> heap" where
  "for_loop body [] h = (Inr (), h)"
| "for_loop body (k # ks) h =
     (case body k h of
        (Inl e, h') \<Rightarrow> (Inl e, h')
      | (Inr u, h') \<Rightarrow> for_loop body ks h')"

text \<open>
  \<open>df.loc[m, cs] = v\<close>: the cells of the columns \<open>cs\<close> in the rows where the boolean
  series \<open>m\<close> is true become \<open>v\<close>. The labels \<open>cs\<close> must exist.
\<close>

definition set_cells :: "string list \<Rightarrow> val \<Rightarrow> row \<Rightarrow> row" where
  "set_cells cs v r = map (\<lambda>(c, x). if c \<in> set cs then (c, v) else (c, x)) r"

definition loc_set :: "table \<Rightarrow> bool list \<Rightarrow> string list \<Rightarrow> val \<Rightarrow> error + table" where
  "loc_set t m cs v =
     (if \<not> set cs \<subseteq> set (columns t) then Inl KeyError
      else Inr (t\<lparr>rows := map (\<lambda>((i, r), b). if b then (i, set_cells cs v r) else (i, r))
                            (zip (rows t) m)\<rparr>))"

text \<open>\<open>df[c] = vs\<close>: the column \<open>c\<close> is replaced by the list \<open>vs\<close>, or added as the last one.\<close>

fun update_cell :: "string \<Rightarrow> val \<Rightarrow> row \<Rightarrow> row" where
  "update_cell c v [] = [(c, v)]"
| "update_cell c v ((c', x) # r) = (if c' = c then (c, v) # r else (c', x) # update_cell c v r)"

definition setcol :: "table \<Rightarrow> string \<Rightarrow> val list \<Rightarrow> table" where
  "setcol t c vs =
     \<lparr>columns = (if c \<in> set (columns t) then columns t else columns t @ [c]),
      rows = map (\<lambda>((i, r), v). (i, update_cell c v r)) (zip (rows t) vs)\<rparr>"

text \<open>\<open>Index.drop(labels)\<close>: \<open>KeyError\<close> when a label is not in the index.\<close>

definition index_drop :: "'a list \<Rightarrow> 'a list \<Rightarrow> error + 'a list" where
  "index_drop ix labels =
     (if \<not> set labels \<subseteq> set ix then Inl KeyError
      else Inr (filter (\<lambda>c. c \<notin> set labels) ix))"

text \<open>\<open>data.drop(index=labels)\<close>: a new frame without the rows of these identifiers.\<close>

definition df_drop :: "table \<Rightarrow> nat list \<Rightarrow> error + table" where
  "df_drop t labels =
     (if \<not> set labels \<subseteq> set (index t) then Inl KeyError
      else Inr (t\<lparr>rows := filter (\<lambda>(i, r). i \<notin> set labels) (rows t)\<rparr>))"

text \<open>
  \<open>Index.union\<close>: the identifiers of both, each once. pandas sorts the result when it
  can; the claims below concern membership only.
\<close>

definition index_union :: "nat list \<Rightarrow> nat list \<Rightarrow> nat list" where
  "index_union a b = sort (remdups (a @ b))"

text \<open>
  \<open>duplicated(keep="first")\<close>: true at every position whose entry has occurred at an
  earlier position.
\<close>

fun duplicated_from :: "'a list \<Rightarrow> 'a list \<Rightarrow> bool list" where
  "duplicated_from seen [] = []"
| "duplicated_from seen (x # xs) = (x \<in> set seen) # duplicated_from (x # seen) xs"

definition duplicated :: "'a list \<Rightarrow> bool list" where
  "duplicated xs = duplicated_from [] xs"

text \<open>
  A row of the frame \<open>df_eval\<close>: the cells of the other columns, and the cells of the
  chosen columns collapsed by \<open>frozenset\<close> or \<open>tuple\<close>.
\<close>

datatype collapsed = FrozenSet "val set" | Tuple "val list"

type_synonym signature = "val list \<times> collapsed"

definition collapse :: "bool \<Rightarrow> val list \<Rightarrow> collapsed" where
  "collapse invariant vs = (if invariant then FrozenSet (set vs) else Tuple vs)"

text \<open>
  \<open>frame[cols].apply(frozenset if invariant else tuple, axis=1)\<close>, the frame given by the
  cells of its rows. For a frame that has rows but no columns, pandas calls the function
  once, on an empty series, and builds a series over the row index from the result: the
  empty tuple has the wrong length (\<open>ValueError\<close>), and a frozenset is refused as unordered
  (\<open>TypeError\<close>).
\<close>

definition apply_collapse ::
  "bool \<Rightarrow> string list \<Rightarrow> val list list \<Rightarrow> error + collapsed list" where
  "apply_collapse invariant cols frame =
     (if cols = [] \<and> frame \<noteq> [] then Inl (if invariant then TypeError else ValueError)
      else Inr (map (collapse invariant) frame))"

subsection \<open>DependenciesConstraint\<close>

record DependenciesConstraint = Constraint +
  conditions :: "Condition list"
  affected_parameters :: "string list list"
  permutation_invariant :: bool

text \<open>
  The constructor: \<open>permutation_invariant\<close> is no constructor argument and starts as
  \<open>False\<close>; the validators are \<open>validate_params\<close> and \<open>affected_parameters_validator\<close>.
\<close>

definition new_DependenciesConstraint ::
  "string list \<Rightarrow> Condition list \<Rightarrow> string list list \<Rightarrow> error + DependenciesConstraint" where
  "new_DependenciesConstraint ps cs aps =
     (case validate_params ps of
        Inl e \<Rightarrow> Inl e
      | Inr u \<Rightarrow>
          if length cs \<noteq> length aps then Inl StrictValidationError
          else Inr \<lparr>parameters = ps, conditions = cs, affected_parameters = aps,
                    permutation_invariant = False\<rparr>)"

text \<open>
  The body of the first loop, for index \<open>k\<close>: the mask is computed on \<open>data\<close>, the write
  goes to \<open>censored_data\<close>. Here \<open>data\<close> and \<open>censored_data\<close> are addresses.
\<close>

definition censor_step ::
  "DependenciesConstraint \<Rightarrow> nat \<Rightarrow> nat \<Rightarrow> nat \<Rightarrow> heap \<Rightarrow> (error + unit) \<times> heap" where
  "censor_step self data censored_data k h =
     (if length (DependenciesConstraint.conditions self) \<le> k then (Inl IndexError, h)
      else
        (case getcol (h ! data) (parameters self ! k) of
           Inl e \<Rightarrow> (Inl e, h)
         | Inr col \<Rightarrow>
             (case evaluate (DependenciesConstraint.conditions self ! k) col of
                Inl e \<Rightarrow> (Inl e, h)
              | Inr m \<Rightarrow>
                  if length (affected_parameters self) \<le> k then (Inl IndexError, h)
                  else
                    (case loc_set (h ! censored_data) (map Not m)
                            (affected_parameters self ! k) (Dummy k) of
                       Inl e \<Rightarrow> (Inl e, h)
                     | Inr t \<Rightarrow> (Inr (), h[censored_data := t])))))"

text \<open>The body of the inner loop of the second loop nest, and the inner loop for index \<open>k\<close>.\<close>

definition rekey_step :: "nat \<Rightarrow> string \<Rightarrow> string \<Rightarrow> heap \<Rightarrow> (error + unit) \<times> heap" where
  "rekey_step censored_data param affected_param h =
     (case getcol (h ! censored_data) affected_param of
        Inl e \<Rightarrow> (Inl e, h)
      | Inr xs \<Rightarrow>
          (case getcol (h ! censored_data) param of
             Inl e \<Rightarrow> (Inl e, h)
           | Inr ys \<Rightarrow>
               (Inr (),
                h[censored_data := setcol (h ! censored_data) affected_param (map2 Zipped xs ys)])))"

definition rekey_group ::
  "DependenciesConstraint \<Rightarrow> nat \<Rightarrow> nat \<Rightarrow> heap \<Rightarrow> (error + unit) \<times> heap" where
  "rekey_group self censored_data k h =
     (if length (affected_parameters self) \<le> k then (Inl IndexError, h)
      else for_loop (rekey_step censored_data (parameters self ! k))
             (affected_parameters self ! k) h)"


definition dep_get_invalid ::
  "DependenciesConstraint \<Rightarrow> nat \<Rightarrow> heap \<Rightarrow> (error + nat list) \<times> heap" where
  "dep_get_invalid self data h0 =
     (case df_copy h0 data of
        (h1, censored_data) \<Rightarrow>
     (case for_loop (censor_step self data censored_data)
             [0..<length (parameters self)] h1 of
        (Inl e, h2) \<Rightarrow> (Inl e, h2)
      | (Inr u, h2) \<Rightarrow>
     (case for_loop (rekey_group self censored_data)
             [0..<length (parameters self)] h2 of
        (Inl e, h3) \<Rightarrow> (Inl e, h3)
      | (Inr u, h3) \<Rightarrow>
     (case index_drop (columns (h3 ! data)) (concat (affected_parameters self)) of
        Inl e \<Rightarrow> (Inl e, h3)
      | Inr remaining \<Rightarrow>
     (case index_drop remaining (parameters self) of
        Inl e \<Rightarrow> (Inl e, h3)
      | Inr other_params \<Rightarrow>
     (case getcols (h3 ! censored_data) other_params of
        Inl e \<Rightarrow> (Inl e, h3)
      | Inr others \<Rightarrow>
     (case getcols (h3 ! censored_data) (concat (affected_parameters self)) of
        Inl e \<Rightarrow> (Inl e, h3)
      | Inr affected \<Rightarrow>
     (case apply_collapse (permutation_invariant self) (concat (affected_parameters self))
             affected of
        Inl e \<Rightarrow> (Inl e, h3)
      | Inr collapsed_rows \<Rightarrow>
          (Inr (index_where (h3 ! data) (duplicated (zip others collapsed_rows))), h3)))))))))"

subsection \<open>PermutationInvarianceConstraint\<close>

record PermutationInvarianceConstraint = Constraint +
  dependencies :: "DependenciesConstraint option"

text \<open>
  The nested dependency constraint is an object that \<open>get_invalid\<close> writes to, so the
  constraint is returned as the call leaves it, next to the result and the store.
\<close>

definition perm_get_invalid ::
  "PermutationInvarianceConstraint \<Rightarrow> nat \<Rightarrow> heap \<Rightarrow>
     (error + nat list) \<times> heap \<times> PermutationInvarianceConstraint" where
  "perm_get_invalid self data h =
     (case new_Constraint (parameters self) of
        Inl e \<Rightarrow> (Inl e, h, self)
      | Inr no_label_duplicates \<Rightarrow>
     (case nolabel_get_invalid no_label_duplicates (h ! data) of
        Inl e \<Rightarrow> (Inl e, h, self)
      | Inr labels \<Rightarrow>
     (case index_drop (columns (h ! data)) (parameters self) of
        Inl e \<Rightarrow> (Inl e, h, self)
      | Inr other_params \<Rightarrow>
     (case getcols (h ! data) other_params of
        Inl e \<Rightarrow> (Inl e, h, self)
      | Inr others \<Rightarrow>
     (case getcols (h ! data) (parameters self) of
        Inl e \<Rightarrow> (Inl e, h, self)
      | Inr params \<Rightarrow>
     (case apply_collapse True (parameters self) params of
        Inl e \<Rightarrow> (Inl e, h, self)
      | Inr sets \<Rightarrow>
          let mask_duplicate_labels = map (\<lambda>i. i \<in> set labels) (index (h ! data));
              df_eval = map fst (filter (\<lambda>(x, b). \<not> b)
                          (zip (zip (index (h ! data)) (zip others sets))
                             mask_duplicate_labels));
              mask_duplicate_permutations = duplicated (map snd df_eval);
              inds_duplicate_labels = index_where (h ! data) mask_duplicate_labels;
              inds_duplicate_permutations =
                map fst (filter snd (zip (map fst df_eval) mask_duplicate_permutations));
              inds_invalid = index_union inds_duplicate_labels inds_duplicate_permutations
          in
            (case dependencies self of
               None \<Rightarrow> (Inr inds_invalid, h, self)
             | Some dep \<Rightarrow>
                 let dep' = dep\<lparr>permutation_invariant := True\<rparr>;
                     self' = self\<lparr>dependencies := Some dep'\<rparr>
                 in
                   (case df_drop (h ! data) inds_invalid of
                      Inl e \<Rightarrow> (Inl e, h, self')
                    | Inr dropped \<Rightarrow>
                        (case df_new h dropped of
                           (h1, remaining) \<Rightarrow>
                             (case dep_get_invalid dep' remaining h1 of
                                (Inl e, h2) \<Rightarrow> (Inl e, h2, self')
                              | (Inr inds_duplicate_independency_adjusted, h2) \<Rightarrow>
                                  (Inr (index_union inds_invalid
                                          inds_duplicate_independency_adjusted),
                                   h2, self')))))))))))"

subsection \<open>All constraints\<close>

datatype constraint =
    Exclude ExcludeConstraint
  | Sum SumConstraint
  | Product ProductConstraint
  | NoLabelDuplicates Constraint
  | LinkedParameters Constraint
  | Dependencies DependenciesConstraint
  | PermutationInvariance PermutationInvarianceConstraint
  | Custom CustomConstraint

text \<open>
  \<open>get_invalid\<close> of any constraint, on the data frame at address \<open>data\<close>: the result, the
  store and the constraint after the call. The variants other than
  \<open>PermutationInvarianceConstraint\<close> and \<open>DependenciesConstraint\<close> contain no assignment
  to a data frame or to a field.
\<close>

fun get_invalid ::
  "constraint \<Rightarrow> nat \<Rightarrow> heap \<Rightarrow> (error + nat list) \<times> heap \<times> constraint" where
  "get_invalid (Exclude self) data h = (exclude_get_invalid self (h ! data), h, Exclude self)"
| "get_invalid (Sum self) data h = (sum_get_invalid self (h ! data), h, Sum self)"
| "get_invalid (Product self) data h = (product_get_invalid self (h ! data), h, Product self)"
| "get_invalid (NoLabelDuplicates self) data h =
     (nolabel_get_invalid self (h ! data), h, NoLabelDuplicates self)"
| "get_invalid (LinkedParameters self) data h =
     (linked_get_invalid self (h ! data), h, LinkedParameters self)"
| "get_invalid (Dependencies self) data h =
     (case dep_get_invalid self data h of (res, h') \<Rightarrow> (res, h', Dependencies self))"
| "get_invalid (PermutationInvariance self) data h =
     (case perm_get_invalid self data h of
        (res, h', self') \<Rightarrow> (res, h', PermutationInvariance self'))"
| "get_invalid (Custom self) data h = (custom_get_invalid self (h ! data), h, Custom self)"

section \<open>The dependency evaluation, row by row\<close>

text \<open>
  What the two loop nests of \<open>DependenciesConstraint.get_invalid\<close> do to a single row
  \<open>r0\<close> of \<open>data\<close>: iteration \<open>k\<close> of the first loop, one assignment of the second loop
  nest, and the row of \<open>censored_data\<close> after both.
\<close>

definition censor_row :: "DependenciesConstraint \<Rightarrow> row \<Rightarrow> nat \<Rightarrow> row \<Rightarrow> row" where
  "censor_row self r0 k r =
     (if cond_holds (DependenciesConstraint.conditions self ! k) (cell r0 (parameters self ! k))
      then r else set_cells (affected_parameters self ! k) (Dummy k) r)"

definition rekey_row :: "string \<Rightarrow> string \<Rightarrow> row \<Rightarrow> row" where
  "rekey_row param c r = update_cell c (Zipped (cell r c) (cell r param)) r"

definition censored_row :: "DependenciesConstraint \<Rightarrow> row \<Rightarrow> row" where
  "censored_row self r0 =
     fold (\<lambda>k. fold (rekey_row (parameters self ! k)) (affected_parameters self ! k))
       [0..<length (parameters self)]
       (fold (censor_row self r0) [0..<length (parameters self)] r0)"

definition row_signature :: "DependenciesConstraint \<Rightarrow> string list \<Rightarrow> row \<Rightarrow> signature" where
  "row_signature self cols r0 =
     (map (cell (censored_row self r0))
        (filter (\<lambda>c. c \<notin> set (parameters self))
           (filter (\<lambda>c. c \<notin> set (concat (affected_parameters self))) cols)),
      collapse (permutation_invariant self)
        (map (cell (censored_row self r0)) (concat (affected_parameters self))))"

text \<open>Iteration \<open>k\<close> of the first loop runs without exception on the table \<open>t\<close>.\<close>

definition censor_pre :: "DependenciesConstraint \<Rightarrow> table \<Rightarrow> nat \<Rightarrow> bool" where
  "censor_pre self t k \<longleftrightarrow>
     k < length (DependenciesConstraint.conditions self) \<and>
     parameters self ! k \<in> set (columns t) \<and>
     \<not> isl (evaluate (DependenciesConstraint.conditions self ! k)
              (map (\<lambda>(i, r). cell r (parameters self ! k)) (rows t))) \<and>
     k < length (affected_parameters self) \<and>
     set (affected_parameters self ! k) \<subseteq> set (columns t)"

text \<open>The whole call runs without exception on the table \<open>t\<close>.\<close>

definition dep_pre :: "DependenciesConstraint \<Rightarrow> table \<Rightarrow> bool" where
  "dep_pre self t \<longleftrightarrow>
     list_all (censor_pre self t) [0..<length (parameters self)] \<and>
     set (concat (affected_parameters self)) \<subseteq> set (columns t) \<and>
     set (parameters self) \<subseteq> set (columns t) - set (concat (affected_parameters self)) \<and>
     (concat (affected_parameters self) = [] \<longrightarrow> rows t = [])"

text \<open>The result of the call on the table \<open>t\<close>, when it runs without exception.\<close>

definition dep_result :: "DependenciesConstraint \<Rightarrow> table \<Rightarrow> nat list" where
  "dep_result self t =
     index_where t (duplicated (map (\<lambda>ir. row_signature self (columns t) (snd ir)) (rows t)))"

text \<open>The store \<open>h\<close> differs from \<open>h0\<close> by new objects only.\<close>

definition extends :: "heap \<Rightarrow> heap \<Rightarrow> bool" where
  "extends h0 h \<longleftrightarrow> length h0 \<le> length h \<and> take (length h0) h = h0"

section \<open>The permutation invariance evaluation, stage by stage\<close>

text \<open>
  The intermediate values of \<open>PermutationInvarianceConstraint.get_invalid\<close> as functions
  of the table: the identifiers with label duplicates, the rows of \<open>df_eval\<close>, the
  signature of a row in \<open>df_eval\<close>, the duplicate permutations, and \<open>inds_invalid\<close>
  before the dependencies are looked at.
\<close>

definition perm_signature :: "string list \<Rightarrow> string list \<Rightarrow> row \<Rightarrow> signature" where
  "perm_signature ps cols r =
     (map (cell r) (filter (\<lambda>c. c \<notin> set ps) cols), collapse True (map (cell r) ps))"

definition perm_stage1 :: "string list \<Rightarrow> table \<Rightarrow> nat list" where
  "perm_stage1 ps t =
     map fst (filter (\<lambda>ir. nunique (map (cell (snd ir)) ps) \<noteq> length ps) (rows t))"

definition perm_remaining :: "string list \<Rightarrow> table \<Rightarrow> (nat \<times> row) list" where
  "perm_remaining ps t = filter (\<lambda>ir. fst ir \<notin> set (perm_stage1 ps t)) (rows t)"

definition perm_stage2 :: "string list \<Rightarrow> table \<Rightarrow> nat list" where
  "perm_stage2 ps t =
     map fst (filter snd
       (zip (map fst (perm_remaining ps t))
          (duplicated (map (\<lambda>ir. perm_signature ps (columns t) (snd ir)) (perm_remaining ps t)))))"

definition perm_invalid12 :: "string list \<Rightarrow> table \<Rightarrow> nat list" where
  "perm_invalid12 ps t =
     index_union (map fst (filter (\<lambda>ir. fst ir \<in> set (perm_stage1 ps t)) (rows t)))
       (perm_stage2 ps t)"

definition perm_dropped :: "string list \<Rightarrow> table \<Rightarrow> table" where
  "perm_dropped ps t = t\<lparr>rows := filter (\<lambda>ir. fst ir \<notin> set (perm_invalid12 ps t)) (rows t)\<rparr>"

definition perm_pre :: "string list \<Rightarrow> table \<Rightarrow> bool" where
  "perm_pre ps t \<longleftrightarrow>
     distinct ps \<and> set ps \<subseteq> set (columns t) \<and> (ps = [] \<longrightarrow> rows t = [])"

section \<open>Signatures as the specification words them\<close>

text \<open>
  The identifiers of the entries whose value equals the value of an earlier entry, in
  list order: the first occurrence of a value is never among them.
\<close>

definition earlier_duplicates :: "(nat \<times> 'a) list \<Rightarrow> nat list" where
  "earlier_duplicates xs =
     map (\<lambda>p. fst (xs ! p))
       (filter (\<lambda>p. list_ex (\<lambda>q. snd (xs ! q) = snd (xs ! p)) [0..<p]) [0..<length xs])"





text \<open>
  Permutation invariance: the values of the parameter columns as an unordered
  multiset, together with the values of all other columns.
\<close>

definition multiset_signature :: "string list \<Rightarrow> string list \<Rightarrow> row \<Rightarrow> val multiset \<times> val list" where
  "multiset_signature ps cols r =
     (mset (map (cell r) ps), map (cell r) (filter (\<lambda>c. c \<notin> set ps) cols))"

section \<open>Example data\<close>

definition example_table :: table where
  "example_table =
     \<lparr>columns = [''x'', ''y''],
      rows = [(0, [(''x'', Num 1), (''y'', Str ''a'')]),
              (1, [(''x'', Num 2), (''y'', Str ''a'')]),
              (2, [(''x'', Num 3), (''y'', Str ''b'')])]\<rparr>"

definition example_exclude :: ExcludeConstraint where
  "example_exclude =
     \<lparr>parameters = [''x'', ''y''],
      ExcludeConstraint.conditions = [Threshold \<lparr>threshold = 1, operator = ''>'', tolerance = None\<rparr>,
                    SubSelection \<lparr>selection = [''a'']\<rparr>],
      combiner = ''AND''\<rparr>"

definition example_labels :: table where
  "example_labels =
     \<lparr>columns = [''s1'', ''s2'', ''t''],
      rows = [(0, [(''s1'', Str ''A''), (''s2'', Str ''B''), (''t'', Num 1)]),
              (1, [(''s1'', Str ''B''), (''s2'', Str ''A''), (''t'', Num 1)]),
              (2, [(''s1'', Str ''A''), (''s2'', Str ''A''), (''t'', Num 1)]),
              (3, [(''s1'', Str ''A''), (''s2'', NaN), (''t'', Num 1)]),
              (4, [(''s1'', Str ''B''), (''s2'', Str ''A''), (''t'', Num 2)])]\<rparr>"


definition example_solvents :: table where
  "example_solvents =
     \<lparr>columns = [''s1'', ''s2'', ''f1'', ''f2''],
      rows = [(0, [(''s1'', Str ''A''), (''s2'', Str ''B''), (''f1'', Num 1), (''f2'', Num 1)]),
              (1, [(''s1'', Str ''B''), (''s2'', Str ''A''), (''f1'', Num 1), (''f2'', Num 1)]),
              (2, [(''s1'', Str ''A''), (''s2'', Str ''A''), (''f1'', Num 1), (''f2'', Num 1)]),
              (3, [(''s1'', Str ''A''), (''s2'', Str ''B''), (''f1'', Num 0), (''f2'', Num 1)]),
              (4, [(''s1'', Str ''C''), (''s2'', Str ''B''), (''f1'', Num 0), (''f2'', Num 1)])]\<rparr>"

definition example_solvents_kept :: table where
  "example_solvents_kept =
     \<lparr>columns = [''s1'', ''s2'', ''f1'', ''f2''],
      rows = [(0, [(''s1'', Str ''A''), (''s2'', Str ''B''), (''f1'', Num 1), (''f2'', Num 1)]),
              (3, [(''s1'', Str ''A''), (''s2'', Str ''B''), (''f1'', Num 0), (''f2'', Num 1)])]\<rparr>"

definition example_dep :: DependenciesConstraint where
  "example_dep =
     \<lparr>parameters = [''f1'', ''f2''],
      DependenciesConstraint.conditions =
        [Threshold \<lparr>threshold = 0, operator = ''>'', tolerance = None\<rparr>,
         Threshold \<lparr>threshold = 0, operator = ''>'', tolerance = None\<rparr>],
      affected_parameters = [[''s1''], [''s2'']],
      permutation_invariant = False\<rparr>"

definition example_perm :: PermutationInvarianceConstraint where
  "example_perm = \<lparr>parameters = [''s1'', ''s2''], dependencies = Some example_dep\<rparr>"





text \<open>A dependency constraint whose second governing parameter is no column of the table.\<close>

definition example_dep_missing :: DependenciesConstraint where
  "example_dep_missing =
     \<lparr>parameters = [''f1'', ''f3''],
      DependenciesConstraint.conditions =
        [Threshold \<lparr>threshold = 0, operator = ''>'', tolerance = None\<rparr>,
         Threshold \<lparr>threshold = 0, operator = ''>'', tolerance = None\<rparr>],
      affected_parameters = [[''s1''], [''s2'']],
      permutation_invariant = False\<rparr>"

definition example_perm_missing :: PermutationInvarianceConstraint where
  "example_perm_missing =
     \<lparr>parameters = [''s1'', ''s2''], dependencies = Some example_dep_missing\<rparr>"

section \<open>Threshold conditions\<close>

lemma to_double_zero [simp]: "to_double 0 = 0"
  by (simp add: to_double_def)

text \<open>
  The rounding on known values: \<open>0.1\<close> and \<open>1/3\<close> as float64, and the ties at
  \<open>2 ^ 53 + 1\<close> and \<open>2 ^ 53 + 3\<close>.
\<close>

lemma to_double_examples:
  "to_double (1 / 10) = 3602879701896397 / 2 ^ 55"
  "to_double (1 / 3) = 6004799503160661 / 2 ^ 54"
  "to_double (2 ^ 53 + 1) = 2 ^ 53"
  "to_double (2 ^ 53 + 3) = 2 ^ 53 + 4"
  "to_double (- (2 ^ 53 + 1)) = - (2 ^ 53)"
  by code_simp+









section \<open>ExcludeConstraint\<close>

lemma series_apply_Inr:
  "series_apply f xs = Inr ys \<Longrightarrow> list_all (\<lambda>x. \<not> isl (f x)) xs \<and> ys = map (\<lambda>x. projr (f x)) xs"
  by (induction xs arbitrary: ys) (auto split: sum.splits)

lemma series_apply_total:
  "list_all (\<lambda>x. \<not> isl (f x)) xs \<Longrightarrow> series_apply f xs = Inr (map (\<lambda>x. projr (f x)) xs)"
  by (induction xs) (auto split: sum.splits)

lemma evaluate_cond_holds:
  assumes "evaluate c col = Inr m"
  shows "m = map (cond_holds c) col"
proof (cases c)
  case (Threshold self)
  from assms Threshold obtain f where num: "numeric_dtype col"
    and f: "map_of threshold_operators (operator self) = Some f"
    and ap: "series_apply (threshold_func self f) col = Inr m"
    by (auto split: if_splits option.splits)
  from series_apply_Inr[OF ap]
  have ok: "list_all (\<lambda>x. \<not> isl (threshold_func self f x)) col"
    and m: "m = map (\<lambda>x. projr (threshold_func self f x)) col" by auto
  have "cond_holds c v = projr (threshold_func self f v)" if "v \<in> set col" for v
  proof -
    from that num have "numeric_dtype [v]" by (auto simp: numeric_dtype_def list_all_iff)
    moreover from that ok have "\<not> isl (threshold_func self f v)" by (auto simp: list_all_iff)
    ultimately show ?thesis using f Threshold
      by (cases "threshold_func self f v") (auto simp: cond_holds_def)
  qed
  with m show ?thesis by auto
next
  case (SubSelection self)
  with assms show ?thesis by (auto simp: cond_holds_def)
qed

lemma exclude_satisfied_Inr:
  "exclude_satisfied data ps k conds = Inr ms \<Longrightarrow>
     (conds \<noteq> [] \<longrightarrow> k + length conds \<le> length ps) \<and>
     ms = map (\<lambda>(cond, p). map (\<lambda>(i, r). cond_holds cond (cell r p)) (rows data))
            (zip conds (drop k ps))"
proof (induction conds arbitrary: k ms)
  case Nil
  then show ?case by simp
next
  case (Cons cond conds)
  from Cons.prems obtain col m ms' where k: "k < length ps"
    and col: "getcol data (ps ! k) = Inr col"
    and m: "evaluate cond col = Inr m"
    and rest: "exclude_satisfied data ps (Suc k) conds = Inr ms'"
    and ms: "ms = m # ms'"
    by (auto split: if_splits sum.splits)
  from col have col': "col = map (\<lambda>(i, r). cell r (ps ! k)) (rows data)"
    by (auto simp: getcol_def split: if_splits)
  from evaluate_cond_holds[OF m] col'
  have m': "m = map (\<lambda>(i, r). cond_holds cond (cell r (ps ! k))) (rows data)"
    by (auto simp: case_prod_unfold)
  from Cons.IH[OF rest] k ms m' show ?case
    by (cases conds) (auto simp: Cons_nth_drop_Suc[symmetric])
qed

lemma map2_same:
  "map2 g (map f1 rs) (map f2 rs) = map (\<lambda>r. g (f1 r) (f2 r)) rs"
  by (induction rs) auto

lemma foldl_map2_rows:
  "foldl (map2 g) (map f0 rs) (map (\<lambda>x. map (f x) rs) xs) =
     map (\<lambda>r. foldl g (f0 r) (map (\<lambda>x. f x r) xs)) rs"
  by (induction xs arbitrary: f0) (auto simp: map2_same)

lemma filter_snd_zip_map:
  "map fst (filter snd (zip (map f rs) (map P rs))) = map f (filter P rs)"
  by (induction rs) auto

lemma index_where_map:
  "index_where t (map P (rows t)) = map fst (filter P (rows t))"
  unfolding index_where_def index_def by (rule filter_snd_zip_map)

lemma foldl_and: "foldl (\<and>) b bs = (b \<and> (\<forall>x\<in>set bs. x))"
  by (induction bs arbitrary: b) auto

lemma foldl_or: "foldl (\<or>) b bs = (b \<or> (\<exists>x\<in>set bs. x))"
  by (induction bs arbitrary: b) auto

lemma foldl_xor: "foldl (\<noteq>) b bs = odd (length (filter id (b # bs)))"
  by (induction bs arbitrary: b) auto

lemma exclude_get_invalid_Inr:
  assumes "exclude_get_invalid self data = Inr res"
  shows "\<exists>g. map_of valid_logic_combiners (combiner self) = Some g \<and>
           ExcludeConstraint.conditions self \<noteq> [] \<and>
           length (ExcludeConstraint.conditions self) \<le> length (parameters self) \<and>
           res = map fst (filter (\<lambda>(i, r). foldl g (hd (condition_results self r))
                                    (tl (condition_results self r))) (rows data))"
proof -
  let ?f = "\<lambda>x ir. cond_holds (fst x) (cell (snd ir) (snd x))"
  from assms obtain satisfied g m where
    sat: "exclude_satisfied data (parameters self) 0 (ExcludeConstraint.conditions self) = Inr satisfied"
    and g: "map_of valid_logic_combiners (combiner self) = Some g"
    and red: "reduce (map2 g) satisfied = Inr m"
    and res: "res = index_where data m"
    by (auto simp: exclude_get_invalid_def split: sum.splits option.splits)
  from exclude_satisfied_Inr[OF sat]
  have len: "ExcludeConstraint.conditions self \<noteq> [] \<longrightarrow> length (ExcludeConstraint.conditions self) \<le> length (parameters self)"
    and satisfied: "satisfied = map (\<lambda>x. map (?f x) (rows data))
                      (zip (ExcludeConstraint.conditions self) (parameters self))"
    by (auto simp: case_prod_unfold)
  from red obtain x xs where sx: "satisfied = x # xs" and m: "m = foldl (map2 g) x xs"
    by (cases satisfied) auto
  from sx satisfied obtain z zs where z: "zip (ExcludeConstraint.conditions self) (parameters self) = z # zs"
    by (cases "zip (ExcludeConstraint.conditions self) (parameters self)") auto
  then have ne: "ExcludeConstraint.conditions self \<noteq> []" by auto
  from sx satisfied z have x: "x = map (?f z) (rows data)"
    and xs: "xs = map (\<lambda>x. map (?f x) (rows data)) zs" by auto
  have cr: "condition_results self (snd ir) = ?f z ir # map (\<lambda>x. ?f x ir) zs" for ir
    by (simp add: condition_results_def z case_prod_unfold)
  have "m = map (\<lambda>ir. foldl g (?f z ir) (map (\<lambda>x. ?f x ir) zs)) (rows data)"
    unfolding m x xs by (rule foldl_map2_rows)
  then have "res = map fst (filter (\<lambda>ir. foldl g (?f z ir) (map (\<lambda>x. ?f x ir) zs)) (rows data))"
    using res by (simp add: index_where_map)
  also have "\<dots> = map fst (filter (\<lambda>(i, r). foldl g (hd (condition_results self r))
                                    (tl (condition_results self r))) (rows data))"
    by (simp add: cr case_prod_unfold)
  finally show ?thesis using g ne len by blast
qed

text \<open>
  C7: \<open>ExcludeConstraint.get_invalid\<close> pairs condition \<open>k\<close> with column \<open>parameters[k]\<close> and
  reduces the masks with the combiner. Whenever it returns, the combiner is one of the
  three, and the rows returned are, in table order, exactly those whose per-parameter
  condition results are all true (AND), contain a true one (OR), or contain an odd
  number of true ones (XOR).
\<close>

theorem exclude_get_invalid_combiner:
  assumes "exclude_get_invalid self data = Inr res"
  shows "combiner self \<in> {''AND'', ''OR'', ''XOR''} \<and>
         (combiner self = ''AND'' \<longrightarrow>
            res = map fst (filter (\<lambda>(i, r). \<forall>b\<in>set (condition_results self r). b) (rows data))) \<and>
         (combiner self = ''OR'' \<longrightarrow>
            res = map fst (filter (\<lambda>(i, r). \<exists>b\<in>set (condition_results self r). b) (rows data))) \<and>
         (combiner self = ''XOR'' \<longrightarrow>
            res = map fst (filter (\<lambda>(i, r). odd (length (filter id (condition_results self r))))
                             (rows data)))"
proof -
  from exclude_get_invalid_Inr[OF assms] obtain g where
    g: "map_of valid_logic_combiners (combiner self) = Some g"
    and ne: "ExcludeConstraint.conditions self \<noteq> []"
    and len: "length (ExcludeConstraint.conditions self) \<le> length (parameters self)"
    and res: "res = map fst (filter (\<lambda>(i, r). foldl g (hd (condition_results self r))
                                    (tl (condition_results self r))) (rows data))"
    by blast
  have crne: "condition_results self r \<noteq> []" for r
    using ne len by (cases "ExcludeConstraint.conditions self"; cases "parameters self")
      (auto simp: condition_results_def)
  have split: "condition_results self r = hd (condition_results self r) # tl (condition_results self r)" for r
    using crne[of r] by simp
  have A: "foldl (\<and>) (hd (condition_results self r)) (tl (condition_results self r))
             = (\<forall>b\<in>set (condition_results self r). b)" for r
    by (subst (3) split) (simp add: foldl_and)
  have B: "foldl (\<or>) (hd (condition_results self r)) (tl (condition_results self r))
             = (\<exists>b\<in>set (condition_results self r). b)" for r
    by (subst (3) split) (simp add: foldl_or)
  have C: "foldl (\<noteq>) (hd (condition_results self r)) (tl (condition_results self r))
             = odd (length (filter id (condition_results self r)))" for r
    by (subst (3) split) (simp only: foldl_xor)
  from g have mem: "combiner self \<in> {''AND'', ''OR'', ''XOR''}"
    by (auto simp: valid_logic_combiners_def split: if_splits)
  have "res = map fst (filter (\<lambda>(i, r). \<forall>b\<in>set (condition_results self r). b) (rows data))"
    if "combiner self = ''AND''"
  proof -
    from g that have "g = (\<and>)" by (simp add: valid_logic_combiners_def)
    with res show ?thesis by (simp only: A)
  qed
  moreover
  have "res = map fst (filter (\<lambda>(i, r). \<exists>b\<in>set (condition_results self r). b) (rows data))"
    if "combiner self = ''OR''"
  proof -
    from g that have "g = (\<or>)" by (simp add: valid_logic_combiners_def)
    with res show ?thesis by (simp only: B)
  qed
  moreover
  have "res = map fst (filter (\<lambda>(i, r). odd (length (filter id (condition_results self r))))
                             (rows data))"
    if "combiner self = ''XOR''"
  proof -
    from g that have "g = (\<noteq>)" by (simp add: valid_logic_combiners_def)
    with res show ?thesis by (simp only: C)
  qed
  ultimately show ?thesis using mem by blast
qed

theorem exclude_get_invalid_combiner_witness:
  "exclude_get_invalid example_exclude example_table = Inr [1] \<and>
   combiner example_exclude = ''AND'' \<and>
   [1] = map fst (filter (\<lambda>(i, r). \<forall>b\<in>set (condition_results example_exclude r). b)
                    (rows example_table))"
proof -
  have h: "exclude_get_invalid example_exclude example_table = Inr [1]"
    by (simp add: exclude_get_invalid_def getcol_def cell_def threshold_operators_def
        threshold_func_def valid_tolerance_operators_def numeric_dtype_def index_where_def
        index_def valid_logic_combiners_def example_table_def example_exclude_def)
  have c: "combiner example_exclude = ''AND''" by (simp add: example_exclude_def)
  from exclude_get_invalid_combiner[OF h] h c show ?thesis by blast
qed

lemma length_card_distinct: "(length ps \<noteq> card (set ps)) = (\<not> distinct ps)"
  by (metis card_distinct distinct_card)

lemma exclude_satisfied_append:
  "k + length cs \<le> length ps \<Longrightarrow>
     exclude_satisfied data (ps @ qs) k cs = exclude_satisfied data ps k cs"
proof (induction cs arbitrary: k)
  case Nil
  then show ?case by simp
next
  case (Cons c cs)
  from Cons.prems have "Suc k + length cs \<le> length ps" by simp
  from Cons.IH[OF this] Cons.prems show ?case by (simp add: nth_append cong: sum.case_cong)
qed

lemma exclude_satisfied_short:
  "k \<le> length ps \<Longrightarrow> length ps < k + length cs \<Longrightarrow> isl (exclude_satisfied data ps k cs)"
proof (induction cs arbitrary: k)
  case Nil
  then show ?case by simp
next
  case (Cons c cs)
  show ?case
  proof (cases "length ps \<le> k")
    case True
    then show ?thesis by simp
  next
    case False
    with Cons.prems have "Suc k \<le> length ps" "length ps < Suc k + length cs" by auto
    from Cons.IH[OF this] show ?thesis by (auto split: sum.splits)
  qed
qed

lemma exclude_satisfied_IndexError:
  "k \<le> length ps \<Longrightarrow> length ps < k + length cs \<Longrightarrow>
   \<not> isl (exclude_satisfied data ps k (take (length ps - k) cs)) \<Longrightarrow>
   exclude_satisfied data ps k cs = Inl IndexError"
proof (induction cs arbitrary: k)
  case Nil
  then show ?case by simp
next
  case (Cons c cs)
  show ?case
  proof (cases "length ps \<le> k")
    case True
    then show ?thesis by simp
  next
    case False
    then have "length ps - k = Suc (length ps - Suc k)" by simp
    then have tk: "take (length ps - k) (c # cs) = c # take (length ps - Suc k) cs"
      by simp
    from Cons.prems(3) False obtain col m where
      col: "getcol data (ps ! k) = Inr col" and m: "evaluate c col = Inr m"
      and rest: "\<not> isl (exclude_satisfied data ps (Suc k) (take (length ps - Suc k) cs))"
      unfolding tk by (auto split: sum.splits if_splits)
    from Cons.prems False have "Suc k \<le> length ps" "length ps < Suc k + length cs" by auto
    from Cons.IH[OF this rest] col m False show ?thesis by simp
  qed
qed

text \<open>
  C9: the constructor of \<open>ExcludeConstraint\<close> checks the uniqueness of \<open>parameters\<close>, the
  minimal length of \<open>conditions\<close> and the combiner, and nothing that relates the two
  lengths. With no more conditions than parameters, \<open>get_invalid\<close> reads only the first
  \<open>len(conditions)\<close> parameters: the trailing ones can be replaced by anything. With more
  conditions than parameters, \<open>get_invalid\<close> always fails, and the failure is the
  out-of-range lookup \<open>IndexError\<close> whenever the conditions that do have a parameter
  evaluate without error.
\<close>

theorem exclude_no_length_check:
  "new_ExcludeConstraint ps cs cb =
     (if distinct ps \<and> cs \<noteq> [] \<and> cb \<in> {''AND'', ''OR'', ''XOR''}
      then Inr \<lparr>parameters = ps, ExcludeConstraint.conditions = cs, combiner = cb\<rparr>
      else Inl StrictValidationError) \<and>
   (length cs \<le> length ps \<longrightarrow>
      exclude_get_invalid \<lparr>parameters = ps, ExcludeConstraint.conditions = cs, combiner = cb\<rparr> data =
      exclude_get_invalid \<lparr>parameters = take (length cs) ps @ qs, ExcludeConstraint.conditions = cs, combiner = cb\<rparr> data) \<and>
   (length ps < length cs \<longrightarrow>
      isl (exclude_get_invalid \<lparr>parameters = ps, ExcludeConstraint.conditions = cs, combiner = cb\<rparr> data) \<and>
      (\<not> isl (exclude_satisfied data ps 0 (take (length ps) cs)) \<longrightarrow>
         exclude_get_invalid \<lparr>parameters = ps, ExcludeConstraint.conditions = cs, combiner = cb\<rparr> data
           = Inl IndexError))"
proof (intro conjI impI)
  show "new_ExcludeConstraint ps cs cb =
     (if distinct ps \<and> cs \<noteq> [] \<and> cb \<in> {''AND'', ''OR'', ''XOR''}
      then Inr \<lparr>parameters = ps, ExcludeConstraint.conditions = cs, combiner = cb\<rparr>
      else Inl StrictValidationError)"
    by (auto simp: new_ExcludeConstraint_def validate_params_def valid_logic_combiners_def
        length_card_distinct)
next
  assume le: "length cs \<le> length ps"
  have "exclude_satisfied data (take (length cs) ps @ drop (length cs) ps) 0 cs
          = exclude_satisfied data (take (length cs) ps) 0 cs"
    using le by (intro exclude_satisfied_append) simp
  moreover have "exclude_satisfied data (take (length cs) ps @ qs) 0 cs
          = exclude_satisfied data (take (length cs) ps) 0 cs"
    using le by (intro exclude_satisfied_append) simp
  ultimately show "exclude_get_invalid \<lparr>parameters = ps, ExcludeConstraint.conditions = cs, combiner = cb\<rparr> data =
      exclude_get_invalid \<lparr>parameters = take (length cs) ps @ qs, ExcludeConstraint.conditions = cs, combiner = cb\<rparr> data"
    by (simp add: exclude_get_invalid_def cong: sum.case_cong)
next
  assume lt: "length ps < length cs"
  from exclude_satisfied_short[where k = 0 and ps = ps and cs = cs and data = data] lt
  show "isl (exclude_get_invalid \<lparr>parameters = ps, ExcludeConstraint.conditions = cs, combiner = cb\<rparr> data)"
    by (auto simp: exclude_get_invalid_def split: sum.splits)
next
  assume lt: "length ps < length cs"
    and ok: "\<not> isl (exclude_satisfied data ps 0 (take (length ps) cs))"
  from exclude_satisfied_IndexError[where k = 0 and ps = ps and cs = cs and data = data] lt ok
  show "exclude_get_invalid \<lparr>parameters = ps, ExcludeConstraint.conditions = cs, combiner = cb\<rparr> data
           = Inl IndexError"
    by (simp add: exclude_get_invalid_def)
qed

theorem exclude_no_length_check_witness:
  "new_ExcludeConstraint [''x'', ''y''] [SubSelection \<lparr>selection = [''a'']\<rparr>] ''OR''
     = Inr \<lparr>parameters = [''x'', ''y''], ExcludeConstraint.conditions = [SubSelection \<lparr>selection = [''a'']\<rparr>],
            combiner = ''OR''\<rparr> \<and>
   exclude_get_invalid \<lparr>parameters = [''y'', ''x''], ExcludeConstraint.conditions = [SubSelection \<lparr>selection = [''a'']\<rparr>],
       combiner = ''OR''\<rparr> example_table
     = exclude_get_invalid \<lparr>parameters = [''y'', ''no such column''],
         ExcludeConstraint.conditions = [SubSelection \<lparr>selection = [''a'']\<rparr>], combiner = ''OR''\<rparr> example_table \<and>
   new_ExcludeConstraint [''y'']
       [SubSelection \<lparr>selection = [''a'']\<rparr>, SubSelection \<lparr>selection = [''b'']\<rparr>] ''OR''
     = Inr \<lparr>parameters = [''y''],
            ExcludeConstraint.conditions = [SubSelection \<lparr>selection = [''a'']\<rparr>, SubSelection \<lparr>selection = [''b'']\<rparr>],
            combiner = ''OR''\<rparr> \<and>
   exclude_get_invalid \<lparr>parameters = [''y''],
       ExcludeConstraint.conditions = [SubSelection \<lparr>selection = [''a'']\<rparr>, SubSelection \<lparr>selection = [''b'']\<rparr>],
       combiner = ''OR''\<rparr> example_table = Inl IndexError"
  using
    exclude_no_length_check [of "[''x'', ''y'']" "[SubSelection \<lparr>selection = [''a'']\<rparr>]" "''OR''"]
    exclude_no_length_check [of "[''y'', ''x'']" "[SubSelection \<lparr>selection = [''a'']\<rparr>]" "''OR''"
       example_table "[''no such column'']"]
    exclude_no_length_check [of "[''y'']"
       "[SubSelection \<lparr>selection = [''a'']\<rparr>, SubSelection \<lparr>selection = [''b'']\<rparr>]" "''OR''" example_table]
  by (simp add: getcol_def example_table_def)

section \<open>Label duplicates and linked parameters\<close>


lemma nunique_card: "nunique vs = card (set vs - {NaN})"
proof -
  have "set (filter (\<lambda>v. v \<noteq> NaN) vs) = set vs - {NaN}" by auto
  then show ?thesis by (simp add: nunique_def length_remdups_card_conv)
qed

lemma nunique_missing: "NaN \<in> set vs \<Longrightarrow> nunique vs < length vs"
proof -
  assume "NaN \<in> set vs"
  then have "card (set vs - {NaN}) < card (set vs)"
    by (intro psubset_card_mono) auto
  also have "\<dots> \<le> length vs" by (rule card_length)
  finally show ?thesis by (simp add: nunique_card)
qed

lemma nunique_full: "(nunique vs = length vs) = (NaN \<notin> set vs \<and> distinct vs)"
proof (cases "NaN \<in> set vs")
  case True
  with nunique_missing[of vs] show ?thesis by simp
next
  case False
  then have "set vs - {NaN} = set vs" by auto
  then show ?thesis using card_distinct[of vs] distinct_card[of vs] False
    by (auto simp: nunique_card)
qed

text \<open>
  C10: missing values are left out of the per-row count of distinct values. With all
  parameter columns present, \<open>NoLabelDuplicatesConstraint\<close> returns exactly the rows that
  hold a missing value or two equal values in the parameter columns; a row with a
  missing value has a count below the number of columns. \<open>LinkedParametersConstraint\<close>
  returns exactly the rows whose non-missing values do not form a single value; a
  row with one distinct non-missing value and any number of missing ones has count 1.
\<close>

theorem missing_values_not_counted:
  assumes "set (parameters self) \<subseteq> set (columns data)"
  shows "nolabel_get_invalid self data =
           Inr (map fst (filter (\<lambda>(i, r). NaN \<in> set (map (cell r) (parameters self)) \<or>
                                   \<not> distinct (map (cell r) (parameters self))) (rows data))) \<and>
         linked_get_invalid self data =
           Inr (map fst (filter (\<lambda>(i, r). card (set (map (cell r) (parameters self)) - {NaN}) \<noteq> 1)
                  (rows data))) \<and>
         (\<forall>vs. NaN \<in> set vs \<longrightarrow> nunique vs < length vs) \<and>
         (\<forall>vs v. v \<noteq> NaN \<and> set vs - {NaN} = {v} \<longrightarrow> nunique vs = 1)"
proof (intro conjI allI impI)
  let ?ps = "parameters self"
  have vals: "getcols data ?ps = Inr (map (\<lambda>(i, r). map (cell r) ?ps) (rows data))"
    using assms by (simp add: getcols_def)
  have "map (\<lambda>vs. nunique vs \<noteq> length ?ps) (map (\<lambda>(i, r). map (cell r) ?ps) (rows data))
      = map (\<lambda>(i, r). NaN \<in> set (map (cell r) ?ps) \<or> \<not> distinct (map (cell r) ?ps)) (rows data)"
    using nunique_full[of "map (cell r) ?ps" for r] by (auto simp: case_prod_unfold)
  then have "index_where data (map (\<lambda>vs. nunique vs \<noteq> length ?ps)
                 (map (\<lambda>(i, r). map (cell r) ?ps) (rows data)))
      = map fst (filter (\<lambda>(i, r). NaN \<in> set (map (cell r) ?ps) \<or>
                                   \<not> distinct (map (cell r) ?ps)) (rows data))"
    by (simp only: index_where_map)
  then show "nolabel_get_invalid self data =
           Inr (map fst (filter (\<lambda>(i, r). NaN \<in> set (map (cell r) ?ps) \<or>
                                   \<not> distinct (map (cell r) ?ps)) (rows data)))"
    unfolding nolabel_get_invalid_def vals by (simp only: sum.case)
next
  let ?ps = "parameters self"
  have vals: "getcols data ?ps = Inr (map (\<lambda>(i, r). map (cell r) ?ps) (rows data))"
    using assms by (simp add: getcols_def)
  have "map (\<lambda>vs. nunique vs \<noteq> 1) (map (\<lambda>(i, r). map (cell r) ?ps) (rows data))
      = map (\<lambda>(i, r). card (set (map (cell r) ?ps) - {NaN}) \<noteq> 1) (rows data)"
    by (auto simp: case_prod_unfold nunique_card)
  then have "index_where data (map (\<lambda>vs. nunique vs \<noteq> 1)
                 (map (\<lambda>(i, r). map (cell r) ?ps) (rows data)))
      = map fst (filter (\<lambda>(i, r). card (set (map (cell r) ?ps) - {NaN}) \<noteq> 1) (rows data))"
    by (simp only: index_where_map)
  then show "linked_get_invalid self data =
           Inr (map fst (filter (\<lambda>(i, r). card (set (map (cell r) ?ps) - {NaN}) \<noteq> 1)
                  (rows data)))"
    unfolding linked_get_invalid_def vals by (simp only: sum.case)
next
  fix vs :: "val list" assume "NaN \<in> set vs"
  then show "nunique vs < length vs" by (rule nunique_missing)
next
  fix vs :: "val list" and v assume "v \<noteq> NaN \<and> set vs - {NaN} = {v}"
  then show "nunique vs = 1" by (simp add: nunique_card)
qed

theorem missing_values_not_counted_witness:
  "nolabel_get_invalid \<lparr>parameters = [''s1'', ''s2'']\<rparr> example_labels = Inr [2, 3] \<and>
   linked_get_invalid \<lparr>parameters = [''s1'', ''s2'']\<rparr> example_labels = Inr [0, 1, 4] \<and>
   nunique [Str ''A'', NaN] < length [Str ''A'', NaN] \<and>
   nunique [NaN, Str ''A'', NaN, Str ''A''] = 1"
proof -
  have s: "set (parameters \<lparr>parameters = [''s1'', ''s2'']\<rparr>) \<subseteq> set (columns example_labels)"
    by (simp add: example_labels_def)
  have n: "NaN \<in> set [Str ''A'', NaN]" by simp
  have v: "Str ''A'' \<noteq> NaN \<and> set [NaN, Str ''A'', NaN, Str ''A''] - {NaN} = {Str ''A''}"
    by auto
  from missing_values_not_counted[OF s] n v show ?thesis
    apply (intro conjI)
    subgoal by (simp add: example_labels_def cell_def)
    subgoal by (simp add: example_labels_def cell_def)
    subgoal by blast
    subgoal by blast
    done
qed

section \<open>Loops on the store\<close>

lemma for_loop_invariant:
  assumes "\<And>k h r h'. k \<in> set ks \<Longrightarrow> I h \<Longrightarrow> body k h = (r, h') \<Longrightarrow> I h'"
    and "I h" and "for_loop body ks h = (r, h')"
  shows "I h'"
  using assms
proof (induction ks arbitrary: h)
  case Nil
  then show ?case by simp
next
  case (Cons k ks)
  obtain r1 h1 where b: "body k h = (r1, h1)" by (cases "body k h")
  have I1: "I h1" using Cons.prems(1)[of k h r1 h1] Cons.prems(2) b by simp
  show ?case
  proof (cases r1)
    case (Inl e)
    with Cons.prems(3) b have "h' = h1" by simp
    with I1 show ?thesis by simp
  next
    case (Inr u)
    with Cons.prems(3) b have loop: "for_loop body ks h1 = (r, h')" by simp
    have step: "\<And>k' h r h'. k' \<in> set ks \<Longrightarrow> I h \<Longrightarrow> body k' h = (r, h') \<Longrightarrow> I h'"
      using Cons.prems(1) by (meson list.set_intros(2))
    from Cons.IH[OF step I1 loop] show ?thesis .
  qed
qed

lemma evaluate_total:
  "\<not> isl (evaluate c col) \<Longrightarrow> evaluate c col = Inr (map (cond_holds c) col)"
  using evaluate_cond_holds[of c col] by (cases "evaluate c col") auto

lemma zip_map_same: "zip (map f xs) (map g xs) = map (\<lambda>x. (f x, g x)) xs"
  by (induction xs) auto

lemma censor_step_ok:
  assumes "data < length h" "c < length h" "data \<noteq> c"
    and hc: "h ! c = \<lparr>columns = columns (h ! data),
                     rows = map (\<lambda>ir. (fst ir, F (snd ir))) (rows (h ! data))\<rparr>"
    and pre: "censor_pre self (h ! data) k"
  shows "censor_step self data c k h =
           (Inr (), h[c := \<lparr>columns = columns (h ! data),
                rows = map (\<lambda>ir. (fst ir, censor_row self (snd ir) k (F (snd ir))))
                         (rows (h ! data))\<rparr>])"
proof -
  let ?t = "h ! data"
  let ?p = "parameters self ! k"
  let ?cond = "DependenciesConstraint.conditions self ! k"
  let ?col = "map (\<lambda>(i, r). cell r ?p) (rows ?t)"
  from pre have k1: "k < length (DependenciesConstraint.conditions self)"
    and p: "?p \<in> set (columns ?t)"
    and ev: "\<not> isl (evaluate ?cond ?col)"
    and k2: "k < length (affected_parameters self)"
    and aff: "set (affected_parameters self ! k) \<subseteq> set (columns ?t)"
    by (auto simp: censor_pre_def)
  have col: "getcol ?t ?p = Inr ?col" using p by (simp add: getcol_def)
  have m: "evaluate ?cond ?col = Inr (map (cond_holds ?cond) ?col)"
    using ev by (rule evaluate_total)
  have ls: "loc_set (h ! c) (map Not (map (cond_holds ?cond) ?col))
              (affected_parameters self ! k) (Dummy k)
          = Inr \<lparr>columns = columns ?t,
                rows = map (\<lambda>ir. (fst ir, censor_row self (snd ir) k (F (snd ir)))) (rows ?t)\<rparr>"
    using aff unfolding hc loc_set_def
    by (auto simp: zip_map_same case_prod_unfold censor_row_def)
  show ?thesis
    unfolding censor_step_def using k1 k2 by (simp add: col m ls del: map_map)
qed

lemma censor_step_fail:
  assumes "data < length h" "c < length h" "data \<noteq> c"
    and hc: "columns (h ! c) = columns (h ! data)"
    and pre: "\<not> censor_pre self (h ! data) k"
  shows "isl (fst (censor_step self data c k h))"
  using pre hc unfolding censor_step_def censor_pre_def
  by (auto simp: getcol_def loc_set_def split: sum.splits)

lemma censor_loop:
  assumes "data < length h" "c < length h" "data \<noteq> c"
    and hc: "h ! c = \<lparr>columns = columns (h ! data),
                     rows = map (\<lambda>ir. (fst ir, F (snd ir))) (rows (h ! data))\<rparr>"
  shows "(list_all (censor_pre self (h ! data)) ks \<longrightarrow>
            for_loop (censor_step self data c) ks h =
              (Inr (), h[c := \<lparr>columns = columns (h ! data),
                 rows = map (\<lambda>ir. (fst ir, fold (censor_row self (snd ir)) ks (F (snd ir))))
                          (rows (h ! data))\<rparr>])) \<and>
         (\<not> list_all (censor_pre self (h ! data)) ks \<longrightarrow>
            isl (fst (for_loop (censor_step self data c) ks h)))"
  using assms
proof (induction ks arbitrary: h F)
  case Nil
  then show ?case by (simp add: list_update_same_conv[THEN iffD2])
next
  case (Cons k ks)
  show ?case
  proof (cases "censor_pre self (h ! data) k")
    case False
    from censor_step_fail[OF Cons.prems(1-3) _ False] Cons.prems(4)
    have "isl (fst (censor_step self data c k h))" by simp
    then show ?thesis using False
      by (cases "censor_step self data c k h") (auto split: sum.splits)
  next
    case True
    let ?h1 = "h[c := \<lparr>columns = columns (h ! data),
                rows = map (\<lambda>ir. (fst ir, censor_row self (snd ir) k (F (snd ir))))
                         (rows (h ! data))\<rparr>]"
    have step: "censor_step self data c k h = (Inr (), ?h1)"
      by (rule censor_step_ok[OF Cons.prems True])
    have d1: "?h1 ! data = h ! data" using Cons.prems by simp
    have l1: "data < length ?h1" "c < length ?h1" using Cons.prems by simp_all
    have hc1: "?h1 ! c = \<lparr>columns = columns (?h1 ! data),
                 rows = map (\<lambda>ir. (fst ir, (\<lambda>r0. censor_row self r0 k (F r0)) (snd ir)))
                          (rows (?h1 ! data))\<rparr>"
      using Cons.prems by simp
    note IH = Cons.IH[OF l1 Cons.prems(3) hc1]
    show ?thesis using IH True unfolding d1 by (simp add: step)
  qed
qed

lemma cell_map_rows:
  "map (\<lambda>(i, r). cell r a) (map (\<lambda>ir. (fst ir, F (snd ir))) rs)
     = map (\<lambda>ir. cell (F (snd ir)) a) rs"
  by (simp add: case_prod_unfold comp_def)

lemma rekey_step_ok:
  assumes "c < length h"
    and hc: "h ! c = \<lparr>columns = cols, rows = map (\<lambda>ir. (fst ir, F (snd ir))) rs\<rparr>"
    and "param \<in> set cols" "a \<in> set cols"
  shows "rekey_step c param a h =
           (Inr (), h[c := \<lparr>columns = cols,
                rows = map (\<lambda>ir. (fst ir, rekey_row param a (F (snd ir)))) rs\<rparr>])"
proof -
  have xs: "getcol (h ! c) a = Inr (map (\<lambda>ir. cell (F (snd ir)) a) rs)"
    using assms(4) unfolding hc getcol_def by (simp add: case_prod_unfold comp_def)
  have ys: "getcol (h ! c) param = Inr (map (\<lambda>ir. cell (F (snd ir)) param) rs)"
    using assms(3) unfolding hc getcol_def by (simp add: case_prod_unfold comp_def)
  have sc: "setcol (h ! c) a (map2 Zipped (map (\<lambda>ir. cell (F (snd ir)) a) rs)
                                  (map (\<lambda>ir. cell (F (snd ir)) param) rs))
          = \<lparr>columns = cols, rows = map (\<lambda>ir. (fst ir, rekey_row param a (F (snd ir)))) rs\<rparr>"
    using assms(4) unfolding hc setcol_def
    by (simp add: zip_map_same case_prod_unfold comp_def rekey_row_def)
  show ?thesis unfolding rekey_step_def xs ys by (simp only: sum.case sc)
qed

lemma rekey_inner:
  assumes "c < length h"
    and hc: "h ! c = \<lparr>columns = cols, rows = map (\<lambda>ir. (fst ir, F (snd ir))) rs\<rparr>"
    and "param \<in> set cols" "set as \<subseteq> set cols"
  shows "for_loop (rekey_step c param) as h =
           (Inr (), h[c := \<lparr>columns = cols,
                rows = map (\<lambda>ir. (fst ir, fold (rekey_row param) as (F (snd ir)))) rs\<rparr>])"
  using assms
proof (induction as arbitrary: h F)
  case Nil
  then show ?case by (simp add: list_update_same_conv[THEN iffD2])
next
  case (Cons a as)
  let ?h1 = "h[c := \<lparr>columns = cols,
                rows = map (\<lambda>ir. (fst ir, rekey_row param a (F (snd ir)))) rs\<rparr>]"
  have step: "rekey_step c param a h = (Inr (), ?h1)"
    using Cons.prems by (intro rekey_step_ok) auto
  have l1: "c < length ?h1" using Cons.prems by simp
  have hc1: "?h1 ! c = \<lparr>columns = cols,
               rows = map (\<lambda>ir. (fst ir, (\<lambda>r. rekey_row param a (F r)) (snd ir))) rs\<rparr>"
    using Cons.prems by simp
  have "set as \<subseteq> set cols" using Cons.prems by simp
  from Cons.IH[OF l1 hc1 Cons.prems(3) this] show ?case by (simp add: step)
qed

lemma rekey_outer:
  assumes "c < length h"
    and hc: "h ! c = \<lparr>columns = cols, rows = map (\<lambda>ir. (fst ir, F (snd ir))) rs\<rparr>"
    and "\<forall>k\<in>set ks. k < length (affected_parameters self) \<and>
           set (affected_parameters self ! k) \<subseteq> set cols \<and>
           parameters self ! k \<in> set cols"
  shows "for_loop (rekey_group self c) ks h =
           (Inr (), h[c := \<lparr>columns = cols,
                rows = map (\<lambda>ir. (fst ir,
                         fold (\<lambda>k. fold (rekey_row (parameters self ! k))
                                      (affected_parameters self ! k)) ks (F (snd ir)))) rs\<rparr>])"
  using assms
proof (induction ks arbitrary: h F)
  case Nil
  then show ?case by (simp add: list_update_same_conv[THEN iffD2])
next
  case (Cons k ks)
  let ?G = "\<lambda>r. fold (rekey_row (parameters self ! k)) (affected_parameters self ! k) (F r)"
  let ?h1 = "h[c := \<lparr>columns = cols, rows = map (\<lambda>ir. (fst ir, ?G (snd ir))) rs\<rparr>]"
  from Cons.prems(3) have k: "k < length (affected_parameters self)"
    and a: "set (affected_parameters self ! k) \<subseteq> set cols"
    and p: "parameters self ! k \<in> set cols" by auto
  have step: "rekey_group self c k h = (Inr (), ?h1)"
    unfolding rekey_group_def using k rekey_inner[OF Cons.prems(1,2) p a] by simp
  have l1: "c < length ?h1" using Cons.prems by simp
  have hc1: "?h1 ! c = \<lparr>columns = cols, rows = map (\<lambda>ir. (fst ir, ?G (snd ir))) rs\<rparr>"
    using Cons.prems by simp
  have rest: "\<forall>k\<in>set ks. k < length (affected_parameters self) \<and>
           set (affected_parameters self ! k) \<subseteq> set cols \<and>
           parameters self ! k \<in> set cols" using Cons.prems(3) by simp
  from Cons.IH[OF l1 hc1 rest] show ?case by (simp add: step)
qed

lemma table_eta: "(t::table) = \<lparr>columns = columns t, rows = map (\<lambda>ir. (fst ir, snd ir)) (rows t)\<rparr>"
  by (cases t) simp


lemma dep_get_invalid_success:
  assumes d: "data < length h0" and pre: "dep_pre self (h0 ! data)"
  shows "dep_get_invalid self data h0 =
           (Inr (dep_result self (h0 ! data)),
            h0 @ [\<lparr>columns = columns (h0 ! data),
                   rows = map (\<lambda>ir. (fst ir, censored_row self (snd ir))) (rows (h0 ! data))\<rparr>])"
proof -
  let ?t = "h0 ! data"
  let ?c = "length h0"
  let ?h1 = "h0 @ [?t]"
  let ?ks = "[0..<length (parameters self)]"
  let ?aff = "concat (affected_parameters self)"
  let ?C = "\<lambda>r0. fold (censor_row self r0) ?ks r0"
  let ?t2 = "\<lparr>columns = columns ?t, rows = map (\<lambda>ir. (fst ir, ?C (snd ir))) (rows ?t)\<rparr>"
  let ?t3 = "\<lparr>columns = columns ?t,
              rows = map (\<lambda>ir. (fst ir, censored_row self (snd ir))) (rows ?t)\<rparr>"
  from pre have cp: "list_all (censor_pre self ?t) ?ks"
    and affcols: "set ?aff \<subseteq> set (columns ?t)"
    and params: "set (parameters self) \<subseteq> set (columns ?t) - set ?aff"
    and nonempty: "?aff = [] \<longrightarrow> rows ?t = []"
    by (auto simp: dep_pre_def)
  have d1: "?h1 ! data = ?t" using d by (simp add: nth_append)
  have c1: "?h1 ! ?c = \<lparr>columns = columns (?h1 ! data),
              rows = map (\<lambda>ir. (fst ir, (\<lambda>r. r) (snd ir))) (rows (?h1 ! data))\<rparr>"
    unfolding d1 using table_eta[of ?t] by simp
  have l1: "data < length ?h1" "?c < length ?h1" "data \<noteq> ?c" using d by simp_all
  from censor_loop[OF l1 c1, of self ?ks] cp
  have loop1: "for_loop (censor_step self data ?c) ?ks ?h1 = (Inr (), h0 @ [?t2])"
    unfolding d1 by simp
  have c2: "(h0 @ [?t2]) ! ?c = \<lparr>columns = columns ?t,
              rows = map (\<lambda>ir. (fst ir, ?C (snd ir))) (rows ?t)\<rparr>" by simp
  have rk: "\<forall>k\<in>set ?ks. k < length (affected_parameters self) \<and>
           set (affected_parameters self ! k) \<subseteq> set (columns ?t) \<and>
           parameters self ! k \<in> set (columns ?t)"
    using cp by (auto simp: list_all_iff censor_pre_def)
  have "?c < length (h0 @ [?t2])" by simp
  from rekey_outer[OF this c2 rk]
  have loop2: "for_loop (rekey_group self ?c) ?ks (h0 @ [?t2]) = (Inr (), h0 @ [?t3])"
    by (simp add: censored_row_def)
  have d3: "(h0 @ [?t3]) ! data = ?t" using d by (simp add: nth_append)
  have c3: "(h0 @ [?t3]) ! ?c = ?t3" by simp
  let ?other = "filter (\<lambda>c. c \<notin> set (parameters self)) (filter (\<lambda>c. c \<notin> set ?aff) (columns ?t))"
  have drop1: "index_drop (columns ?t) ?aff = Inr (filter (\<lambda>c. c \<notin> set ?aff) (columns ?t))"
    using affcols by (simp add: index_drop_def)
  have drop2: "index_drop (filter (\<lambda>c. c \<notin> set ?aff) (columns ?t)) (parameters self) = Inr ?other"
    using params by (auto simp: index_drop_def)
  have g1: "getcols ?t3 ?other
              = Inr (map (\<lambda>ir. map (cell (censored_row self (snd ir))) ?other) (rows ?t))"
    by (auto simp: getcols_def case_prod_unfold comp_def)
  have g2: "getcols ?t3 ?aff
              = Inr (map (\<lambda>ir. map (cell (censored_row self (snd ir))) ?aff) (rows ?t))"
    using affcols by (auto simp: getcols_def case_prod_unfold comp_def)
  have ac: "apply_collapse (permutation_invariant self) ?aff
              (map (\<lambda>ir. map (cell (censored_row self (snd ir))) ?aff) (rows ?t))
            = Inr (map (collapse (permutation_invariant self))
                     (map (\<lambda>ir. map (cell (censored_row self (snd ir))) ?aff) (rows ?t)))"
    using nonempty by (auto simp: apply_collapse_def)
  have sig: "zip (map (\<lambda>ir. map (cell (censored_row self (snd ir))) ?other) (rows ?t))
               (map (collapse (permutation_invariant self))
                  (map (\<lambda>ir. map (cell (censored_row self (snd ir))) ?aff) (rows ?t)))
           = map (\<lambda>ir. row_signature self (columns ?t) (snd ir)) (rows ?t)"
    by (simp add: zip_map_same row_signature_def comp_def)
  show ?thesis
    unfolding dep_get_invalid_def df_copy_def df_new_def
    by (simp only: prod.case loop1 loop2 sum.case d3 c3 drop1 drop2 g1 g2 ac sig dep_result_def)
qed

lemma dep_get_invalid_failure:
  assumes d: "data < length h0" and pre: "\<not> dep_pre self (h0 ! data)"
  shows "isl (fst (dep_get_invalid self data h0))"
proof -
  let ?t = "h0 ! data"
  let ?c = "length h0"
  let ?h1 = "h0 @ [?t]"
  let ?ks = "[0..<length (parameters self)]"
  let ?aff = "concat (affected_parameters self)"
  let ?C = "\<lambda>r0. fold (censor_row self r0) ?ks r0"
  let ?t2 = "\<lparr>columns = columns ?t, rows = map (\<lambda>ir. (fst ir, ?C (snd ir))) (rows ?t)\<rparr>"
  let ?t3 = "\<lparr>columns = columns ?t,
              rows = map (\<lambda>ir. (fst ir, censored_row self (snd ir))) (rows ?t)\<rparr>"
  have d1: "?h1 ! data = ?t" using d by (simp add: nth_append)
  have c1: "?h1 ! ?c = \<lparr>columns = columns (?h1 ! data),
              rows = map (\<lambda>ir. (fst ir, (\<lambda>r. r) (snd ir))) (rows (?h1 ! data))\<rparr>"
    unfolding d1 using table_eta[of ?t] by simp
  have l1: "data < length ?h1" "?c < length ?h1" "data \<noteq> ?c" using d by simp_all
  note cl = censor_loop[OF l1 c1, of self ?ks, unfolded d1]
  show ?thesis
  proof (cases "list_all (censor_pre self ?t) ?ks")
    case False
    with cl have "isl (fst (for_loop (censor_step self data ?c) ?ks ?h1))" by simp
    then show ?thesis
      unfolding dep_get_invalid_def df_copy_def df_new_def
      by (cases "for_loop (censor_step self data ?c) ?ks ?h1") (auto split: sum.splits)
  next
    case True
    with cl have loop1: "for_loop (censor_step self data ?c) ?ks ?h1 = (Inr (), h0 @ [?t2])"
      by simp
    have c2: "(h0 @ [?t2]) ! ?c = \<lparr>columns = columns ?t,
              rows = map (\<lambda>ir. (fst ir, ?C (snd ir))) (rows ?t)\<rparr>" by simp
    have rk: "\<forall>k\<in>set ?ks. k < length (affected_parameters self) \<and>
           set (affected_parameters self ! k) \<subseteq> set (columns ?t) \<and>
           parameters self ! k \<in> set (columns ?t)"
      using True by (auto simp: list_all_iff censor_pre_def)
    have "?c < length (h0 @ [?t2])" by simp
    from rekey_outer[OF this c2 rk]
    have loop2: "for_loop (rekey_group self ?c) ?ks (h0 @ [?t2]) = (Inr (), h0 @ [?t3])"
      by (simp add: censored_row_def)
    have d3: "(h0 @ [?t3]) ! data = ?t" using d by (simp add: nth_append)
    have c3: "(h0 @ [?t3]) ! ?c = ?t3" by simp
    show ?thesis
    proof (cases "set ?aff \<subseteq> set (columns ?t) \<and>
        set (parameters self) \<subseteq> set (columns ?t) - set ?aff")
      case False
      then have bad: "\<not> set ?aff \<subseteq> set (columns ?t) \<or>
          \<not> set (parameters self) \<subseteq> set (columns ?t) - set ?aff"
        by simp
      have "isl (fst (case index_drop (columns ?t) ?aff of
          Inl e \<Rightarrow> (Inl e, h3)
        | Inr remaining \<Rightarrow>
       (case index_drop remaining (parameters self) of
          Inl e \<Rightarrow> (Inl e, h3)
        | Inr other_params \<Rightarrow> X other_params)))" for h3 :: heap and X
        using bad by (auto simp: index_drop_def)
      then show ?thesis
        unfolding dep_get_invalid_def df_copy_def df_new_def
        by (simp only: prod.case loop1 loop2 sum.case d3)
    next
      case cols: True
      then have affcols: "set ?aff \<subseteq> set (columns ?t)"
        and params: "set (parameters self) \<subseteq> set (columns ?t) - set ?aff"
        by simp_all
      from pre True cols have empty: "?aff = []" and nonempty: "rows ?t \<noteq> []"
        by (auto simp: dep_pre_def)
      let ?other = "filter (\<lambda>c. c \<notin> set (parameters self))
                      (filter (\<lambda>c. c \<notin> set ?aff) (columns ?t))"
      have drop1: "index_drop (columns ?t) ?aff = Inr (filter (\<lambda>c. c \<notin> set ?aff) (columns ?t))"
        using affcols by (simp add: index_drop_def)
      have drop2: "index_drop (filter (\<lambda>c. c \<notin> set ?aff) (columns ?t)) (parameters self)
                     = Inr ?other"
        using params by (auto simp: index_drop_def)
      have g1: "getcols ?t3 ?other
                  = Inr (map (\<lambda>ir. map (cell (censored_row self (snd ir))) ?other) (rows ?t))"
        by (auto simp: getcols_def case_prod_unfold comp_def)
      have g2: "getcols ?t3 ?aff
                  = Inr (map (\<lambda>ir. map (cell (censored_row self (snd ir))) ?aff) (rows ?t))"
        using affcols by (auto simp: getcols_def case_prod_unfold comp_def)
      have ac: "apply_collapse (permutation_invariant self) ?aff
                  (map (\<lambda>ir. map (cell (censored_row self (snd ir))) ?aff) (rows ?t))
                = Inl (if permutation_invariant self then TypeError else ValueError)"
        using empty nonempty by (auto simp: apply_collapse_def)
      show ?thesis
        unfolding dep_get_invalid_def df_copy_def df_new_def
        by (simp only: prod.case loop1 loop2 sum.case d3 c3 drop1 drop2 g1 g2 ac fst_conv
            sum.disc)
    qed
  qed
qed

lemma dep_get_invalid_Inr:
  assumes "data < length h0" and "fst (dep_get_invalid self data h0) = Inr res"
  shows "dep_pre self (h0 ! data) \<and> res = dep_result self (h0 ! data)"
proof -
  have pre: "dep_pre self (h0 ! data)"
    using dep_get_invalid_failure[OF assms(1), of self] assms(2) by (cases "dep_pre self (h0 ! data)") auto
  with dep_get_invalid_success[OF assms(1) pre] assms(2) show ?thesis by simp
qed



section \<open>The store is only extended\<close>


lemma extends_refl: "extends h h"
  by (simp add: extends_def)

lemma extends_append: "extends h0 (h0 @ xs)"
  by (simp add: extends_def)

lemma extends_update: "extends h0 h \<Longrightarrow> length h0 \<le> c \<Longrightarrow> extends h0 (h[c := t])"
  by (simp add: extends_def)

lemma extends_trans:
  assumes "extends h0 h1" "extends h1 h2"
  shows "extends h0 h2"
proof -
  from assms have l: "length h0 \<le> length h1" "length h1 \<le> length h2"
    and t: "take (length h0) h1 = h0" "take (length h1) h2 = h1"
    by (auto simp: extends_def)
  have "take (length h0) h2 = take (length h0) (take (length h1) h2)"
    using l by (simp add: min_def)
  also have "\<dots> = h0" using t by simp
  finally show ?thesis using l by (simp add: extends_def)
qed

lemma extends_nth:
  assumes "extends h0 h" "a < length h0"
  shows "h ! a = h0 ! a"
proof -
  from assms have "take (length h0) h ! a = h ! a" by simp
  with assms show ?thesis by (simp add: extends_def)
qed

lemma censor_step_extends:
  assumes "extends h0 h" "length h0 \<le> c" "censor_step self data c k h = (r, h')"
  shows "extends h0 h'"
proof -
  from assms(3) have "h' = h \<or> (\<exists>t. h' = h[c := t])"
    unfolding censor_step_def by (auto split: if_splits sum.splits)
  with assms(1,2) show ?thesis by (auto intro: extends_update)
qed

lemma rekey_step_extends:
  assumes "extends h0 h" "length h0 \<le> c" "rekey_step c p a h = (r, h')"
  shows "extends h0 h'"
proof -
  from assms(3) have "h' = h \<or> (\<exists>t. h' = h[c := t])"
    unfolding rekey_step_def by (auto split: if_splits sum.splits)
  with assms(1,2) show ?thesis by (auto intro: extends_update)
qed

lemma rekey_group_extends:
  assumes "extends h0 h" "length h0 \<le> c" "rekey_group self c k h = (r, h')"
  shows "extends h0 h'"
proof (cases "length (affected_parameters self) \<le> k")
  case True
  with assms show ?thesis by (simp add: rekey_group_def)
next
  case False
  with assms(3) have loop: "for_loop (rekey_step c (parameters self ! k))
      (affected_parameters self ! k) h = (r, h')" by (simp add: rekey_group_def)
  show ?thesis
    by (rule for_loop_invariant[where I = "extends h0", OF _ assms(1) loop])
       (rule rekey_step_extends[OF _ assms(2)])
qed

lemma dep_get_invalid_extends: "extends h0 (snd (dep_get_invalid self data h0))"
proof -
  let ?c = "length h0"
  let ?h1 = "h0 @ [h0 ! data]"
  let ?ks = "[0..<length (parameters self)]"
  obtain r2 h2 where loop1: "for_loop (censor_step self data ?c) ?ks ?h1 = (r2, h2)"
    by (cases "for_loop (censor_step self data ?c) ?ks ?h1")
  have e2: "extends h0 h2"
    by (rule for_loop_invariant[where I = "extends h0", OF _ extends_append loop1])
       (rule censor_step_extends[OF _ le_refl])
  obtain r3 h3 where loop2: "for_loop (rekey_group self ?c) ?ks h2 = (r3, h3)"
    by (cases "for_loop (rekey_group self ?c) ?ks h2")
  have e3: "extends h0 h3"
    by (rule for_loop_invariant[where I = "extends h0", OF _ e2 loop2])
       (rule rekey_group_extends[OF _ le_refl])
  show ?thesis
    unfolding dep_get_invalid_def df_copy_def df_new_def
    using e2 e3 by (auto simp: loop1 loop2 split: sum.splits)
qed

lemma new_Constraint_eq:
  "new_Constraint ps = (if distinct ps then Inr \<lparr>parameters = ps\<rparr> else Inl StrictValidationError)"
  using length_card_distinct[of ps] by (auto simp: new_Constraint_def validate_params_def)

lemma nolabel_get_invalid_eq:
  "nolabel_get_invalid \<lparr>parameters = ps\<rparr> t =
     (if set ps \<subseteq> set (columns t) then Inr (perm_stage1 ps t) else Inl KeyError)"
proof (cases "set ps \<subseteq> set (columns t)")
  case True
  then have vals: "getcols t ps = Inr (map (\<lambda>ir. map (cell (snd ir)) ps) (rows t))"
    by (simp add: getcols_def case_prod_unfold)
  have "index_where t (map (\<lambda>vs. nunique vs \<noteq> length ps)
          (map (\<lambda>ir. map (cell (snd ir)) ps) (rows t)))
        = perm_stage1 ps t"
    unfolding perm_stage1_def index_where_map[symmetric] by (simp add: comp_def)
  with True show ?thesis
    unfolding nolabel_get_invalid_def by (simp add: vals del: map_map)
next
  case False
  then show ?thesis by (simp add: nolabel_get_invalid_def getcols_def)
qed

lemma filter_fst_zip_map:
  "map fst (filter (\<lambda>(x, b). \<not> b) (zip (map f rs) (map P rs))) = map f (filter (\<lambda>x. \<not> P x) rs)"
  by (induction rs) auto

lemma perm_values:
  assumes "set ps \<subseteq> set (columns t)"
  defines "labels \<equiv> perm_stage1 ps t"
  defines "others \<equiv> map (\<lambda>(i, r). map (cell r) (filter (\<lambda>c. c \<notin> set ps) (columns t))) (rows t)"
  defines "params \<equiv> map (\<lambda>(i, r). map (cell r) ps) (rows t)"
  defines "msk \<equiv> map (\<lambda>i. i \<in> set labels) (index t)"
  defines "df_eval \<equiv> map fst (filter (\<lambda>(x, b). \<not> b)
                          (zip (zip (index t) (zip others (map (collapse True) params))) msk))"
  shows "index_drop (columns t) ps = Inr (filter (\<lambda>c. c \<notin> set ps) (columns t))"
    and "getcols t (filter (\<lambda>c. c \<notin> set ps) (columns t)) = Inr others"
    and "getcols t ps = Inr params"
    and "map fst df_eval = map fst (perm_remaining ps t)"
    and "map snd df_eval = map (\<lambda>ir. perm_signature ps (columns t) (snd ir)) (perm_remaining ps t)"
    and "index_where t msk = map fst (filter (\<lambda>ir. fst ir \<in> set (perm_stage1 ps t)) (rows t))"
proof -
  show "index_drop (columns t) ps = Inr (filter (\<lambda>c. c \<notin> set ps) (columns t))"
    using assms(1) by (simp add: index_drop_def)
  show "getcols t (filter (\<lambda>c. c \<notin> set ps) (columns t)) = Inr others"
    by (auto simp: getcols_def others_def)
  show "getcols t ps = Inr params"
    using assms(1) by (simp add: getcols_def params_def)
  have z: "zip (zip (index t) (zip others (map (collapse True) params))) msk
         = map (\<lambda>ir. ((fst ir, perm_signature ps (columns t) (snd ir)), fst ir \<in> set labels)) (rows t)"
    unfolding index_def others_def params_def msk_def
    by (simp add: zip_map_same case_prod_unfold perm_signature_def comp_def)
  have df: "df_eval = map (\<lambda>ir. (fst ir, perm_signature ps (columns t) (snd ir)))
                        (perm_remaining ps t)"
    unfolding df_eval_def z perm_remaining_def labels_def[symmetric]
    using filter_fst_zip_map[where f = "\<lambda>ir. (fst ir, perm_signature ps (columns t) (snd ir))"
        and P = "\<lambda>ir. fst ir \<in> set labels" and rs = "rows t"]
    by (simp add: zip_map_same)
  show "map fst df_eval = map fst (perm_remaining ps t)" by (simp add: df comp_def)
  show "map snd df_eval = map (\<lambda>ir. perm_signature ps (columns t) (snd ir)) (perm_remaining ps t)"
    by (simp add: df comp_def)
  have "msk = map (\<lambda>ir. fst ir \<in> set labels) (rows t)"
    by (simp add: msk_def index_def comp_def)
  then show "index_where t msk = map fst (filter (\<lambda>ir. fst ir \<in> set (perm_stage1 ps t)) (rows t))"
    by (simp only: index_where_map labels_def)
qed

lemma set_index_union: "set (index_union a b) = set a \<union> set b"
  by (simp add: index_union_def)

lemma set_flagged_subset: "set (map fst (filter snd (zip xs bs))) \<subseteq> set xs"
  by (auto dest: set_zip_leftD)

lemma perm_invalid12_subset: "set (perm_invalid12 ps t) \<subseteq> set (index t)"
proof -
  have "set (perm_stage2 ps t) \<subseteq> set (map fst (perm_remaining ps t))"
    unfolding perm_stage2_def by (rule set_flagged_subset)
  also have "\<dots> \<subseteq> set (index t)" by (auto simp: perm_remaining_def index_def)
  finally show ?thesis by (auto simp: perm_invalid12_def set_index_union index_def)
qed

lemma df_drop_perm:
  "df_drop t (perm_invalid12 ps t) = Inr (perm_dropped ps t)"
  using perm_invalid12_subset[of ps t]
  by (simp add: df_drop_def perm_dropped_def case_prod_unfold)

lemma perm_get_invalid_fail:
  assumes "\<not> perm_pre (parameters self) (h ! data)"
  shows "isl (fst (perm_get_invalid self data h)) \<and> snd (perm_get_invalid self data h) = (h, self)"
  using assms unfolding perm_get_invalid_def perm_pre_def
  by (auto simp: new_Constraint_eq nolabel_get_invalid_eq index_drop_def getcols_def
      apply_collapse_def)

lemma perm_get_invalid_pre:
  assumes "perm_pre (parameters self) (h ! data)"
  shows "perm_get_invalid self data h =
     (case dependencies self of
        None \<Rightarrow> (Inr (perm_invalid12 (parameters self) (h ! data)), h, self)
      | Some dep \<Rightarrow>
          (case dep_get_invalid (dep\<lparr>permutation_invariant := True\<rparr>) (length h)
                  (h @ [perm_dropped (parameters self) (h ! data)]) of
             (Inl e, h2) \<Rightarrow>
                (Inl e, h2, self\<lparr>dependencies := Some (dep\<lparr>permutation_invariant := True\<rparr>)\<rparr>)
           | (Inr l, h2) \<Rightarrow>
                (Inr (index_union (perm_invalid12 (parameters self) (h ! data)) l), h2,
                 self\<lparr>dependencies := Some (dep\<lparr>permutation_invariant := True\<rparr>)\<rparr>)))"
proof -
  let ?ps = "parameters self"
  let ?t = "h ! data"
  from assms have dist: "distinct ?ps" and sub: "set ?ps \<subseteq> set (columns ?t)"
    and nonempty: "?ps = [] \<longrightarrow> rows ?t = []"
    by (auto simp: perm_pre_def)
  note pv = perm_values[OF sub]
  have ac: "apply_collapse True ?ps (map (\<lambda>(i, r). map (cell r) ?ps) (rows ?t))
              = Inr (map (collapse True) (map (\<lambda>(i, r). map (cell r) ?ps) (rows ?t)))"
    using nonempty by (auto simp: apply_collapse_def)
  have nc: "new_Constraint ?ps = Inr \<lparr>parameters = ?ps\<rparr>" using dist by (simp add: new_Constraint_eq)
  have nl: "nolabel_get_invalid \<lparr>parameters = ?ps\<rparr> ?t = Inr (perm_stage1 ?ps ?t)"
    using sub by (simp add: nolabel_get_invalid_eq)
  show ?thesis
    unfolding perm_get_invalid_def Let_def
    by (simp only: nc nl sum.case pv ac perm_stage2_def[symmetric] perm_invalid12_def[symmetric]
        df_drop_perm df_new_def prod.case)
qed


section \<open>Duplicates\<close>

lemma length_duplicated_from: "length (duplicated_from seen xs) = length xs"
  by (induction xs arbitrary: seen) auto

lemma duplicated_from_nth:
  "p < length xs \<Longrightarrow>
     duplicated_from seen xs ! p = (xs ! p \<in> set seen \<or> (\<exists>q<p. xs ! q = xs ! p))"
proof (induction xs arbitrary: seen p)
  case Nil
  then show ?case by simp
next
  case (Cons x xs)
  show ?case
  proof (cases p)
    case 0
    then show ?thesis by simp
  next
    case (Suc p')
    with Cons.prems have p': "p' < length xs" by simp
    have "(\<exists>q<Suc p'. (x # xs) ! q = xs ! p') = (x = xs ! p' \<or> (\<exists>q<p'. xs ! q = xs ! p'))"
      by (auto simp: less_Suc_eq_0_disj)
    with Cons.IH[OF p', of "x # seen"] Suc show ?thesis by auto
  qed
qed

lemma duplicated_nth:
  "p < length xs \<Longrightarrow> duplicated xs ! p = (\<exists>q<p. xs ! q = xs ! p)"
  by (simp add: duplicated_def duplicated_from_nth)

lemma duplicated_from_distinct:
  "distinct xs \<Longrightarrow> set xs \<inter> set seen = {} \<Longrightarrow>
     filter snd (zip ys (duplicated_from seen xs)) = []"
proof (induction xs arbitrary: seen ys)
  case Nil
  then show ?case by simp
next
  case (Cons x xs)
  from Cons.prems have "distinct xs" "set xs \<inter> set (x # seen) = {}" "x \<notin> set seen" by auto
  with Cons.IH[of "x # seen"] show ?case by (cases ys) auto
qed

lemma duplicated_distinct: "distinct xs \<Longrightarrow> filter snd (zip ys (duplicated xs)) = []"
  by (simp add: duplicated_def duplicated_from_distinct)

lemma kept_distinct_from:
  assumes "\<forall>(x, b)\<in>set (zip rs (duplicated_from seen (map g rs))). b \<longrightarrow> \<not> P x"
  shows "distinct (map g (filter P rs)) \<and> (\<forall>x\<in>set (filter P rs). g x \<notin> set seen)"
  using assms
proof (induction rs arbitrary: seen)
  case Nil
  then show ?case by simp
next
  case (Cons x rs)
  from Cons.prems have
    rest: "\<forall>(y, b)\<in>set (zip rs (duplicated_from (g x # seen) (map g rs))). b \<longrightarrow> \<not> P y"
    and hd: "g x \<in> set seen \<longrightarrow> \<not> P x" by auto
  from Cons.IH[OF rest] have d: "distinct (map g (filter P rs))"
    and n: "\<forall>y\<in>set (filter P rs). g y \<notin> set (g x # seen)" by auto
  show ?case using d n hd by auto
qed

lemma kept_distinct:
  assumes "set (map fst (filter snd (zip (map fst rs) (duplicated (map g rs))))) \<subseteq> F"
  shows "distinct (map g (filter (\<lambda>ir. fst ir \<notin> F) rs))"
proof -
  have key: "i \<in> F" if m: "((i, r), True) \<in> set (zip rs (duplicated_from [] (map g rs)))" for i r
  proof -
    from m obtain p where p: "p < length rs" "rs ! p = (i, r)" "duplicated_from [] (map g rs) ! p"
      by (auto simp: set_zip)
    then have "(i, True) \<in> set (zip (map fst rs) (duplicated (map g rs)))"
      unfolding set_zip duplicated_def
      by (auto simp: length_duplicated_from intro!: exI[of _ p])
    then have "i \<in> set (map fst (filter snd (zip (map fst rs) (duplicated (map g rs)))))"
      by force
    with assms show "i \<in> F" by auto
  qed
  have "\<forall>(x, b)\<in>set (zip rs (duplicated_from [] (map g rs))). b \<longrightarrow> \<not> fst x \<notin> F"
    using key by auto
  from kept_distinct_from[OF this] show ?thesis by simp
qed

section \<open>Removing rows\<close>

lemma series_apply_isl:
  "isl (series_apply f xs) = (\<not> list_all (\<lambda>x. \<not> isl (f x)) xs)"
  by (induction xs) (auto split: sum.splits)

lemma evaluate_filter:
  assumes "\<not> isl (evaluate c (map f rs))"
  shows "\<not> isl (evaluate c (map f (filter P rs)))"
proof (cases c)
  case (Threshold self)
  from assms Threshold obtain op where
    num: "numeric_dtype (map f rs)"
    and op: "map_of threshold_operators (operator self) = Some op"
    and ap: "\<not> isl (series_apply (threshold_func self op) (map f rs))"
    by (auto split: if_splits option.splits)
  from num have "numeric_dtype (map f (filter P rs))"
    by (auto simp: numeric_dtype_def list_all_iff)
  moreover from ap have "\<not> isl (series_apply (threshold_func self op) (map f (filter P rs)))"
    by (auto simp: series_apply_isl list_all_iff)
  ultimately show ?thesis using Threshold op by simp
next
  case (SubSelection self)
  then show ?thesis by simp
qed

lemma dep_pre_filter:
  assumes "dep_pre self t"
  shows "dep_pre self (t\<lparr>rows := filter P (rows t)\<rparr>)"
proof -
  have "censor_pre self (t\<lparr>rows := filter P (rows t)\<rparr>) k" if "censor_pre self t k" for k
    using that evaluate_filter[of "DependenciesConstraint.conditions self ! k"
        "\<lambda>(i, r). cell r (parameters self ! k)" "rows t" P]
    by (auto simp: censor_pre_def)
  with assms show ?thesis by (auto simp: dep_pre_def list_all_iff)
qed

lemma dep_result_filter_empty:
  assumes "set (dep_result self t) \<subseteq> F"
  shows "dep_result self (t\<lparr>rows := filter (\<lambda>ir. fst ir \<notin> F) (rows t)\<rparr>) = []"
proof -
  let ?g = "\<lambda>ir. row_signature self (columns t) (snd ir)"
  from assms have "set (map fst (filter snd (zip (map fst (rows t)) (duplicated (map ?g (rows t)))))) \<subseteq> F"
    by (simp add: dep_result_def index_where_def index_def)
  from kept_distinct[OF this]
  have "distinct (map ?g (filter (\<lambda>ir. fst ir \<notin> F) (rows t)))" .
  from duplicated_distinct[OF this] show ?thesis
    by (simp add: dep_result_def index_where_def index_def)
qed


lemma perm_pre_filter: "perm_pre ps t \<Longrightarrow> perm_pre ps (t\<lparr>rows := filter P (rows t)\<rparr>)"
  by (simp add: perm_pre_def)

lemma set_stage1_labels:
  "set (map fst (filter (\<lambda>ir. fst ir \<in> set (perm_stage1 ps t)) (rows t))) = set (perm_stage1 ps t)"
  unfolding perm_stage1_def by force

lemma set_perm_invalid12:
  "set (perm_invalid12 ps t) = set (perm_stage1 ps t) \<union> set (perm_stage2 ps t)"
  unfolding perm_invalid12_def set_index_union set_stage1_labels ..

lemma perm_invalid12_filter_empty:
  assumes "set (perm_invalid12 ps t) \<subseteq> F"
  shows "perm_invalid12 ps (t\<lparr>rows := filter (\<lambda>ir. fst ir \<notin> F) (rows t)\<rparr>) = []"
proof -
  let ?t' = "t\<lparr>rows := filter (\<lambda>ir. fst ir \<notin> F) (rows t)\<rparr>"
  let ?g = "\<lambda>ir. perm_signature ps (columns t) (snd ir)"
  from assms have s1: "set (perm_stage1 ps t) \<subseteq> F" and s2: "set (perm_stage2 ps t) \<subseteq> F"
    by (auto simp: set_perm_invalid12)
  have st1: "perm_stage1 ps ?t' = []"
    using s1 by (auto simp: perm_stage1_def filter_empty_conv)
  have "filter (\<lambda>ir. fst ir \<notin> F) (filter (\<lambda>ir. fst ir \<notin> set (perm_stage1 ps t)) (rows t))
          = filter (\<lambda>ir. fst ir \<notin> F) (rows t)"
    using s1 by (auto intro: filter_cong)
  then have rem: "perm_remaining ps ?t' = filter (\<lambda>ir. fst ir \<notin> F) (perm_remaining ps t)"
    by (simp add: perm_remaining_def st1)
  from s2 have "set (map fst (filter snd (zip (map fst (perm_remaining ps t))
      (duplicated (map ?g (perm_remaining ps t)))))) \<subseteq> F"
    by (simp add: perm_stage2_def)
  from duplicated_distinct[OF kept_distinct[OF this]]
  have st2: "perm_stage2 ps ?t' = []"
    by (simp add: perm_stage2_def rem)
  show ?thesis by (simp add: perm_invalid12_def st1 st2 index_union_def)
qed

lemma perm_dropped_empty:
  "perm_invalid12 ps t = [] \<Longrightarrow> perm_dropped ps t = t"
  by (simp add: perm_dropped_def)

lemma df_drop_eq:
  "df_drop t res = Inr t' \<Longrightarrow> t' = t\<lparr>rows := filter (\<lambda>ir. fst ir \<notin> set res) (rows t)\<rparr>"
  by (auto simp: df_drop_def case_prod_unfold split: if_splits)

text \<open>
  C8: when \<open>PermutationInvarianceConstraint.get_invalid\<close> returns the identifiers \<open>res\<close> and
  the rows with these identifiers are removed from the table, the same constraint,
  as the first call left it, returns no identifier on the remaining table.
\<close>

theorem perm_get_invalid_idempotent:
  assumes run: "perm_get_invalid self data h = (Inr res, h1, self1)"
    and drop: "df_drop (h ! data) res = Inr t'"
  shows "fst (perm_get_invalid self1 (length h1) (h1 @ [t'])) = Inr []"
proof -
  let ?ps = "parameters self"
  let ?t = "h ! data"
  have pre: "perm_pre ?ps ?t"
    using perm_get_invalid_fail[of self h data] run by (cases "perm_pre ?ps ?t") auto
  note char = perm_get_invalid_pre[OF pre]
  have t': "t' = ?t\<lparr>rows := filter (\<lambda>ir. fst ir \<notin> set res) (rows ?t)\<rparr>"
    using drop by (rule df_drop_eq)
  have here: "(h1 @ [t']) ! length h1 = t'" by simp
  have pre': "perm_pre ?ps t'" unfolding t' using pre by (rule perm_pre_filter)
  show ?thesis
  proof (cases "dependencies self")
    case None
    with char run have res: "res = perm_invalid12 ?ps ?t" and s1: "self1 = self" by auto
    have e: "perm_invalid12 ?ps t' = []"
      unfolding t' by (rule perm_invalid12_filter_empty) (simp add: res)
    from pre' have "perm_pre (parameters self1) ((h1 @ [t']) ! length h1)"
      by (simp add: s1)
    from perm_get_invalid_pre[OF this] show ?thesis
      by (simp add: s1 None e)
  next
    case (Some dep)
    let ?dep' = "dep\<lparr>permutation_invariant := True\<rparr>"
    let ?t2 = "perm_dropped ?ps ?t"
    obtain r3 h3 where d3: "dep_get_invalid ?dep' (length h) (h @ [?t2]) = (r3, h3)"
      by (cases "dep_get_invalid ?dep' (length h) (h @ [?t2])")
    from char run Some d3 obtain l3 where r3: "r3 = Inr l3"
      and res: "res = index_union (perm_invalid12 ?ps ?t) l3"
      and s1: "self1 = self\<lparr>dependencies := Some ?dep'\<rparr>"
      by (cases r3) auto
    have "length h < length (h @ [?t2])" by simp
    from dep_get_invalid_Inr[OF this, of ?dep' l3] d3 r3
    have dpre: "dep_pre ?dep' ?t2" and l3: "l3 = dep_result ?dep' ?t2" by auto
    have e: "perm_invalid12 ?ps t' = []"
      unfolding t' by (rule perm_invalid12_filter_empty) (simp add: res set_index_union)
    have t'2: "t' = ?t2\<lparr>rows := filter (\<lambda>ir. fst ir \<notin> set res) (rows ?t2)\<rparr>"
      unfolding t' perm_dropped_def
      by (auto simp: res set_index_union intro: filter_cong)
    have dpre': "dep_pre ?dep' t'"
      unfolding t'2 using dpre by (rule dep_pre_filter)
    have dres': "dep_result ?dep' t' = []"
      unfolding t'2 by (rule dep_result_filter_empty) (simp add: res set_index_union l3)
    let ?h2 = "h1 @ [t']"
    have dr: "perm_dropped ?ps t' = t'" using e by (rule perm_dropped_empty)
    have "length ?h2 < length (?h2 @ [t'])" by simp
    from dep_get_invalid_success[OF this, of ?dep', unfolded nth_append_length, OF dpre']
    have run2: "fst (dep_get_invalid ?dep' (length ?h2) (?h2 @ [t'])) = Inr []"
      by (simp only: fst_conv dres')
    from pre' have "perm_pre (parameters self1) (?h2 ! length h1)" by (simp add: s1)
    from perm_get_invalid_pre[OF this] run2 show ?thesis
      by (cases "dep_get_invalid ?dep' (length ?h2) (?h2 @ [t'])")
        (simp add: s1 e dr index_union_def)
  qed
qed


theorem perm_get_invalid_idempotent_witness:
  "perm_get_invalid example_perm 0 [example_solvents]
     = (Inr [1, 2, 4], snd (perm_get_invalid example_perm 0 [example_solvents])) \<and>
   df_drop ([example_solvents] ! 0) [1, 2, 4] = Inr example_solvents_kept \<and>
   fst (perm_get_invalid (snd (snd (perm_get_invalid example_perm 0 [example_solvents])))
          (length (fst (snd (perm_get_invalid example_perm 0 [example_solvents]))))
          (fst (snd (perm_get_invalid example_perm 0 [example_solvents])) @ [example_solvents_kept]))
     = Inr []"
proof -
  have f: "fst (perm_get_invalid example_perm 0 [example_solvents]) = Inr [1, 2, 4]"
    by code_simp
  then have run: "perm_get_invalid example_perm 0 [example_solvents]
     = (Inr [1, 2, 4], fst (snd (perm_get_invalid example_perm 0 [example_solvents])),
        snd (snd (perm_get_invalid example_perm 0 [example_solvents])))"
    by (metis prod.collapse)
  have drop: "df_drop ([example_solvents] ! 0) [1, 2, 4] = Inr example_solvents_kept"
    by code_simp
  from perm_get_invalid_idempotent[OF run drop] run drop show ?thesis by simp
qed

section \<open>Cells of a censored row\<close>

lemma keys_set_cells: "map fst (set_cells cs v r) = map fst r"
  by (induction r) (auto simp: set_cells_def)



lemma keys_censor_row: "map fst (censor_row self r0 k r) = map fst r"
  by (simp add: censor_row_def keys_set_cells)

lemma keys_fold_censor: "map fst (fold (censor_row self r0) ks r) = map fst r"
  by (induction ks arbitrary: r) (auto simp: keys_censor_row)










lemma flagged_positions:
  "length xs = length bs \<Longrightarrow>
     map fst (filter snd (zip xs bs)) = map ((!) xs) (filter ((!) bs) [0..<length xs])"
proof (induction xs bs rule: list_induct2)
  case Nil
  then show ?case by simp
next
  case (Cons x xs b bs)
  have "[0..<length (x # xs)] = 0 # map Suc [0..<length xs]"
    by (simp add: upt_conv_Cons map_Suc_upt del: upt_Suc)
  then show ?case using Cons.IH
    by (simp add: filter_map comp_def del: upt_Suc)
qed

lemma flagged_earlier_duplicates:
  "map fst (filter snd (zip (map fst rs) (duplicated (map g rs))))
     = earlier_duplicates (map (\<lambda>ir. (fst ir, g ir)) rs)"
proof -
  let ?n = "length rs"
  have len: "length (map fst rs) = length (duplicated (map g rs))"
    by (simp add: duplicated_def length_duplicated_from)
  have flt: "filter ((!) (duplicated (map g rs))) [0..<?n]
           = filter (\<lambda>p. list_ex (\<lambda>q. snd (map (\<lambda>ir. (fst ir, g ir)) rs ! q)
                                      = snd (map (\<lambda>ir. (fst ir, g ir)) rs ! p)) [0..<p]) [0..<?n]"
  proof (rule filter_cong[OF refl])
    fix p assume "p \<in> set [0..<?n]"
    then have p: "p < ?n" by simp
    then have "duplicated (map g rs) ! p = (\<exists>q<p. g (rs ! q) = g (rs ! p))"
      by (simp add: duplicated_nth cong: conj_cong)
    also have "\<dots> = list_ex (\<lambda>q. snd (map (\<lambda>ir. (fst ir, g ir)) rs ! q)
                                      = snd (map (\<lambda>ir. (fst ir, g ir)) rs ! p)) [0..<p]"
      using p by (auto simp: list_ex_iff)
    finally show "duplicated (map g rs) ! p = \<dots>" .
  qed
  have "map fst (filter snd (zip (map fst rs) (duplicated (map g rs))))
      = map ((!) (map fst rs)) (filter ((!) (duplicated (map g rs))) [0..<?n])"
    using flagged_positions[OF len] by simp
  also have "\<dots> = map (\<lambda>p. fst (map (\<lambda>ir. (fst ir, g ir)) rs ! p))
                     (filter ((!) (duplicated (map g rs))) [0..<?n])"
    by (rule map_cong) auto
  finally show ?thesis
    unfolding earlier_duplicates_def flt by simp
qed



lemma earlier_duplicates_cong:
  assumes "\<And>a b. a \<in> set rs \<Longrightarrow> b \<in> set rs \<Longrightarrow> (g a = g b) = (g' a = g' b)"
  shows "earlier_duplicates (map (\<lambda>ir. (fst ir, g ir)) rs)
           = earlier_duplicates (map (\<lambda>ir. (fst ir, g' ir)) rs)"
proof -
  have "filter (\<lambda>p. list_ex (\<lambda>q. snd (map (\<lambda>ir. (fst ir, g ir)) rs ! q)
                               = snd (map (\<lambda>ir. (fst ir, g ir)) rs ! p)) [0..<p]) [0..<length rs]
      = filter (\<lambda>p. list_ex (\<lambda>q. snd (map (\<lambda>ir. (fst ir, g' ir)) rs ! q)
                               = snd (map (\<lambda>ir. (fst ir, g' ir)) rs ! p)) [0..<p]) [0..<length rs]"
  proof (rule filter_cong[OF refl])
    fix p assume "p \<in> set [0..<length rs]"
    then have p: "p < length rs" by simp
    have "(g (rs ! q) = g (rs ! p)) = (g' (rs ! q) = g' (rs ! p))" if "q < p" for q
      using assms[of "rs ! q" "rs ! p"] that p by simp
    then show "list_ex (\<lambda>q. snd (map (\<lambda>ir. (fst ir, g ir)) rs ! q)
                               = snd (map (\<lambda>ir. (fst ir, g ir)) rs ! p)) [0..<p]
           = list_ex (\<lambda>q. snd (map (\<lambda>ir. (fst ir, g' ir)) rs ! q)
                               = snd (map (\<lambda>ir. (fst ir, g' ir)) rs ! p)) [0..<p]"
      using p by (auto simp: list_ex_iff)
  qed
  moreover have "map (\<lambda>p. fst (map (\<lambda>ir. (fst ir, g ir)) rs ! p)) ps
      = map (\<lambda>p. fst (map (\<lambda>ir. (fst ir, g' ir)) rs ! p)) ps"
    if "set ps \<subseteq> {0..<length rs}" for ps
    using that by (intro map_cong) auto
  ultimately show ?thesis
    unfolding earlier_duplicates_def by simp
qed

section \<open>DependenciesConstraint\<close>





section \<open>PermutationInvarianceConstraint\<close>

lemma perm_signature_multiset:
  assumes "nunique (map (cell a) ps) = length ps" "nunique (map (cell b) ps) = length ps"
  shows "(perm_signature ps cols a = perm_signature ps cols b)
           = (multiset_signature ps cols a = multiset_signature ps cols b)"
proof -
  from assms have "distinct (map (cell a) ps)" "distinct (map (cell b) ps)"
    using nunique_full[of "map (cell a) ps"] nunique_full[of "map (cell b) ps"] by simp_all
  from set_eq_iff_mset_eq_distinct[OF this] show ?thesis
    by (auto simp: perm_signature_def multiset_signature_def collapse_def)
qed

lemma perm_stage2_spec:
  "perm_stage2 ps t =
     earlier_duplicates
       (map (\<lambda>ir. (fst ir, multiset_signature ps (columns t) (snd ir))) (perm_remaining ps t))"
proof -
  have ok: "nunique (map (cell (snd a)) ps) = length ps" if "a \<in> set (perm_remaining ps t)" for a
    using that by (force simp: perm_remaining_def perm_stage1_def)
  have "perm_stage2 ps t = earlier_duplicates
       (map (\<lambda>ir. (fst ir, perm_signature ps (columns t) (snd ir))) (perm_remaining ps t))"
    unfolding perm_stage2_def by (rule flagged_earlier_duplicates)
  also have "\<dots> = earlier_duplicates
       (map (\<lambda>ir. (fst ir, multiset_signature ps (columns t) (snd ir))) (perm_remaining ps t))"
    by (rule earlier_duplicates_cong) (rule perm_signature_multiset[OF ok ok])
  finally show ?thesis .
qed

text \<open>
  C1: whenever \<open>PermutationInvarianceConstraint.get_invalid\<close> returns, the identifiers it
  returns are exactly those of three stages together. Stage 1 is the result of
  \<open>NoLabelDuplicatesConstraint\<close> over the same parameters. Stage 2 consists, among the
  rows not named by stage 1, of every row whose signature (the multiset of its
  parameter values, and the values of all other columns) equals that of an earlier
  such row. Stage 3, with a dependency constraint attached, is the result of that
  constraint with \<open>permutation_invariant\<close> set, on the rows named by neither stage.
\<close>

theorem permutation_invariance_three_stages:
  assumes "fst (perm_get_invalid self data h) = Inr res"
  shows "\<exists>l1. nolabel_get_invalid \<lparr>parameters = parameters self\<rparr> (h ! data) = Inr l1 \<and>
           (let remaining = filter (\<lambda>(i, r). i \<notin> set l1) (rows (h ! data));
                l2 = earlier_duplicates
                       (map (\<lambda>(i, r). (i, multiset_signature (parameters self)
                                             (columns (h ! data)) r)) remaining);
                rest = (h ! data)\<lparr>rows := filter (\<lambda>(i, r). i \<notin> set l1 \<union> set l2)
                                               (rows (h ! data))\<rparr>
            in case dependencies self of
                 None \<Rightarrow> set res = set l1 \<union> set l2
               | Some dep \<Rightarrow>
                   \<exists>l3. fst (dep_get_invalid (dep\<lparr>permutation_invariant := True\<rparr>) 0 [rest])
                           = Inr l3 \<and>
                        set res = set l1 \<union> set l2 \<union> set l3)"
proof -
  let ?ps = "parameters self"
  let ?t = "h ! data"
  let ?l1 = "perm_stage1 ?ps ?t"
  let ?l2 = "perm_stage2 ?ps ?t"
  have pre: "perm_pre ?ps ?t"
    using perm_get_invalid_fail[of self h data] assms by (cases "perm_pre ?ps ?t") auto
  note char = perm_get_invalid_pre[OF pre]
  from pre have nl: "nolabel_get_invalid \<lparr>parameters = ?ps\<rparr> ?t = Inr ?l1"
    by (simp add: nolabel_get_invalid_eq perm_pre_def)
  have rem: "filter (\<lambda>(i, r). i \<notin> set ?l1) (rows ?t) = perm_remaining ?ps ?t"
    by (simp add: perm_remaining_def case_prod_unfold)
  have l2: "earlier_duplicates (map (\<lambda>(i, r). (i, multiset_signature ?ps (columns ?t) r))
              (perm_remaining ?ps ?t)) = ?l2"
    by (simp add: perm_stage2_spec case_prod_unfold)
  have rest: "?t\<lparr>rows := filter (\<lambda>(i, r). i \<notin> set ?l1 \<union> set ?l2) (rows ?t)\<rparr>
                = perm_dropped ?ps ?t"
    by (simp add: perm_dropped_def set_perm_invalid12 case_prod_unfold)
  have main: "case dependencies self of
                 None \<Rightarrow> set res = set ?l1 \<union> set ?l2
               | Some dep \<Rightarrow>
                   \<exists>l3. fst (dep_get_invalid (dep\<lparr>permutation_invariant := True\<rparr>) 0
                               [perm_dropped ?ps ?t]) = Inr l3 \<and>
                        set res = set ?l1 \<union> set ?l2 \<union> set l3"
  proof (cases "dependencies self")
    case None
    with char assms have "res = perm_invalid12 ?ps ?t" by simp
    then have "set res = set ?l1 \<union> set ?l2" by (simp only: set_perm_invalid12)
    with None show ?thesis by simp
  next
    case (Some dep)
    let ?dep' = "dep\<lparr>permutation_invariant := True\<rparr>"
    let ?t2 = "perm_dropped ?ps ?t"
    obtain r3 h3 where d3: "dep_get_invalid ?dep' (length h) (h @ [?t2]) = (r3, h3)"
      by (cases "dep_get_invalid ?dep' (length h) (h @ [?t2])")
    from char assms Some d3 obtain l3 where r3: "r3 = Inr l3"
      and res: "res = index_union (perm_invalid12 ?ps ?t) l3"
      by (cases r3) auto
    have "length h < length (h @ [?t2])" by simp
    from dep_get_invalid_Inr[OF this, of ?dep' l3] d3 r3
    have dpre: "dep_pre ?dep' ?t2" and l3: "l3 = dep_result ?dep' ?t2" by auto
    have "(0::nat) < length [?t2]" by simp
    from dep_get_invalid_success[OF this, of ?dep'] dpre
    have run: "fst (dep_get_invalid ?dep' 0 [?t2]) = Inr l3" by (simp add: l3)
    have "set res = set ?l1 \<union> set ?l2 \<union> set l3"
      unfolding res by (simp only: set_index_union set_perm_invalid12)
    with run Some show ?thesis by auto
  qed
  show ?thesis
    by (rule exI[of _ ?l1]) (simp only: nl Let_def rem l2 rest main simp_thms)
qed

theorem permutation_invariance_three_stages_witness:
  "fst (perm_get_invalid example_perm 0 [example_solvents]) = Inr [1, 2, 4] \<and>
   (\<exists>l1. nolabel_get_invalid \<lparr>parameters = parameters example_perm\<rparr> ([example_solvents] ! 0)
            = Inr l1 \<and>
      (let remaining = filter (\<lambda>(i, r). i \<notin> set l1) (rows ([example_solvents] ! 0));
           l2 = earlier_duplicates
                  (map (\<lambda>(i, r). (i, multiset_signature (parameters example_perm)
                                        (columns ([example_solvents] ! 0)) r)) remaining);
           rest = ([example_solvents] ! 0)\<lparr>rows := filter (\<lambda>(i, r). i \<notin> set l1 \<union> set l2)
                                          (rows ([example_solvents] ! 0))\<rparr>
       in case dependencies example_perm of
            None \<Rightarrow> set [1, 2, 4] = set l1 \<union> set l2
          | Some dep \<Rightarrow>
              \<exists>l3. fst (dep_get_invalid (dep\<lparr>permutation_invariant := True\<rparr>) 0 [rest])
                      = Inr l3 \<and>
                   set [1, 2, 4] = set l1 \<union> set l2 \<union> set l3)) \<and>
   nolabel_get_invalid \<lparr>parameters = parameters example_perm\<rparr> example_solvents = Inr [2] \<and>
   earlier_duplicates
     (map (\<lambda>(i, r). (i, multiset_signature (parameters example_perm) (columns example_solvents) r))
        (filter (\<lambda>(i, r). i \<notin> set [2]) (rows example_solvents))) = [1] \<and>
   fst (dep_get_invalid (example_dep\<lparr>permutation_invariant := True\<rparr>) 0
          [example_solvents\<lparr>rows := filter (\<lambda>(i, r). i \<notin> set [2] \<union> set [1])
                                       (rows example_solvents)\<rparr>]) = Inr [4]"
proof -
  have f: "fst (perm_get_invalid example_perm 0 [example_solvents]) = Inr [1, 2, 4]"
    by code_simp
  have n: "nolabel_get_invalid \<lparr>parameters = parameters example_perm\<rparr> example_solvents = Inr [2]"
    by code_simp
  have e: "earlier_duplicates
     (map (\<lambda>(i, r). (i, multiset_signature (parameters example_perm) (columns example_solvents) r))
        (filter (\<lambda>(i, r). i \<notin> set [2]) (rows example_solvents))) = [1]"
    by (simp add: earlier_duplicates_def multiset_signature_def example_perm_def
        example_solvents_def cell_def upt_rec)
  have d: "fst (dep_get_invalid (example_dep\<lparr>permutation_invariant := True\<rparr>) 0
          [example_solvents\<lparr>rows := filter (\<lambda>(i, r). i \<notin> set [2] \<union> set [1])
                                       (rows example_solvents)\<rparr>]) = Inr [4]"
    by code_simp
  from permutation_invariance_three_stages[OF f] f n e d show ?thesis by blast
qed

section \<open>The input table and the returned identifiers\<close>

lemma index_where_subset: "set (index_where t bs) \<subseteq> set (index t)"
  unfolding index_where_def by (rule set_flagged_subset)

lemma dep_result_subset: "set (dep_result self t) \<subseteq> set (index t)"
  unfolding dep_result_def by (rule index_where_subset)

lemma stateless_subset:
  "exclude_get_invalid e t = Inr res \<Longrightarrow> set res \<subseteq> set (index t)"
  "sum_get_invalid s t = Inr res \<Longrightarrow> set res \<subseteq> set (index t)"
  "product_get_invalid p t = Inr res \<Longrightarrow> set res \<subseteq> set (index t)"
  "nolabel_get_invalid n t = Inr res \<Longrightarrow> set res \<subseteq> set (index t)"
  "linked_get_invalid n t = Inr res \<Longrightarrow> set res \<subseteq> set (index t)"
  "custom_get_invalid c t = Inr res \<Longrightarrow> set res \<subseteq> set (index t)"
  using index_where_subset
  by (auto simp: exclude_get_invalid_def sum_get_invalid_def product_get_invalid_def
      nolabel_get_invalid_def linked_get_invalid_def custom_get_invalid_def
      split: sum.splits option.splits if_splits)

lemma dep_frame:
  assumes "data < length h" "dep_get_invalid self data h = (r, h')"
  shows "extends h h' \<and> (\<forall>res. r = Inr res \<longrightarrow> set res \<subseteq> set (index (h ! data)))"
proof -
  from dep_get_invalid_extends[of h self data] assms(2) have e: "extends h h'" by simp
  have "set res \<subseteq> set (index (h ! data))" if "r = Inr res" for res
    using dep_get_invalid_Inr[OF assms(1), of self res] assms(2) that dep_result_subset
    by simp
  with e show ?thesis by blast
qed

lemma perm_frame:
  assumes "data < length h" "perm_get_invalid self data h = (r, h', self')"
  shows "extends h h' \<and> (\<forall>res. r = Inr res \<longrightarrow> set res \<subseteq> set (index (h ! data)))"
proof (cases "perm_pre (parameters self) (h ! data)")
  case False
  from perm_get_invalid_fail[OF False] assms(2) show ?thesis
    by (auto simp: extends_refl)
next
  case True
  let ?ps = "parameters self"
  let ?t = "h ! data"
  note char = perm_get_invalid_pre[OF True]
  show ?thesis
  proof (cases "dependencies self")
    case None
    with char assms(2) perm_invalid12_subset[of ?ps ?t] show ?thesis
      by (auto simp: extends_refl)
  next
    case (Some dep)
    let ?dep' = "dep\<lparr>permutation_invariant := True\<rparr>"
    let ?t2 = "perm_dropped ?ps ?t"
    obtain r3 h3 where d3: "dep_get_invalid ?dep' (length h) (h @ [?t2]) = (r3, h3)"
      by (cases "dep_get_invalid ?dep' (length h) (h @ [?t2])")
    have "length h < length (h @ [?t2])" by simp
    from dep_frame[OF this d3]
    have e3: "extends (h @ [?t2]) h3"
      and s3: "\<forall>res. r3 = Inr res \<longrightarrow> set res \<subseteq> set (index ((h @ [?t2]) ! length h))"
      by auto
    have sub2: "set (index ?t2) \<subseteq> set (index ?t)"
      by (auto simp: perm_dropped_def index_def)
    from char Some d3 assms(2) have h': "h' = h3"
      by (cases r3) auto
    have e: "extends h h'" unfolding h'
      by (rule extends_trans[OF extends_append e3])
    have "set res \<subseteq> set (index ?t)" if "r = Inr res" for res
    proof -
      from char Some d3 assms(2) that obtain l3 where r3: "r3 = Inr l3"
        and res: "res = index_union (perm_invalid12 ?ps ?t) l3"
        by (cases r3) auto
      from s3 r3 have "set l3 \<subseteq> set (index ?t2)" by simp
      with sub2 perm_invalid12_subset[of ?ps ?t] show ?thesis
        by (auto simp: res set_index_union)
    qed
    with e show ?thesis by blast
  qed
qed

text \<open>
  C5: for every constraint and every table of the store, \<open>get_invalid\<close> leaves the
  objects of the store as they are, the input table with its rows in their order among
  them (the store only gains new objects), and every identifier it returns is an
  identifier of a row of the input table.
\<close>

theorem get_invalid_frame:
  assumes "data < length h"
  shows "case get_invalid c data h of
           (r, h', c') \<Rightarrow>
             take (length h) h' = h \<and> h' ! data = h ! data \<and>
             (\<forall>res. r = Inr res \<longrightarrow> set res \<subseteq> set (index (h ! data)))"
proof -
  obtain r h' c' where g: "get_invalid c data h = (r, h', c')"
    by (cases "get_invalid c data h")
  have "extends h h' \<and> (\<forall>res. r = Inr res \<longrightarrow> set res \<subseteq> set (index (h ! data)))"
  proof (cases c)
    case (Dependencies self)
    with g have "dep_get_invalid self data h = (r, h')"
      by (cases "dep_get_invalid self data h") auto
    from dep_frame[OF assms this] show ?thesis .
  next
    case (PermutationInvariance self)
    with g obtain self' where "perm_get_invalid self data h = (r, h', self')"
      by (cases "perm_get_invalid self data h") auto
    from perm_frame[OF assms this] show ?thesis .
  next
    case (Exclude self)
    with g stateless_subset(1)[of self "h ! data"] show ?thesis
      by (auto simp: extends_refl)
  next
    case (Sum self)
    with g stateless_subset(2)[of self "h ! data"] show ?thesis
      by (auto simp: extends_refl)
  next
    case (Product self)
    with g stateless_subset(3)[of self "h ! data"] show ?thesis
      by (auto simp: extends_refl)
  next
    case (NoLabelDuplicates self)
    with g stateless_subset(4)[of self "h ! data"] show ?thesis
      by (auto simp: extends_refl)
  next
    case (LinkedParameters self)
    with g stateless_subset(5)[of self "h ! data"] show ?thesis
      by (auto simp: extends_refl)
  next
    case (Custom self)
    with g stateless_subset(6)[of self "h ! data"] show ?thesis
      by (auto simp: extends_refl)
  qed
  then have "take (length h) h' = h" "h' ! data = h ! data"
    "\<forall>res. r = Inr res \<longrightarrow> set res \<subseteq> set (index (h ! data))"
    using extends_nth[of h h' data] assms by (auto simp: extends_def)
  then show ?thesis by (simp add: g)
qed

theorem get_invalid_frame_witness:
  "(0::nat) < length [example_solvents] \<and>
   fst (get_invalid (PermutationInvariance example_perm) 0 [example_solvents]) = Inr [1, 2, 4] \<and>
   take (length [example_solvents])
     (fst (snd (get_invalid (PermutationInvariance example_perm) 0 [example_solvents])))
     = [example_solvents] \<and>
   fst (snd (get_invalid (PermutationInvariance example_perm) 0 [example_solvents])) ! 0
     = [example_solvents] ! 0 \<and>
   set [1, 2, 4] \<subseteq> set (index ([example_solvents] ! 0))"
proof -
  have a: "(0::nat) < length [example_solvents]" by simp
  have f: "fst (get_invalid (PermutationInvariance example_perm) 0 [example_solvents])
             = Inr [1, 2, 4]" by code_simp
  from get_invalid_frame[OF a, of "PermutationInvariance example_perm"] f a show ?thesis
    by (cases "get_invalid (PermutationInvariance example_perm) 0 [example_solvents]") auto
qed

section \<open>The constraint after a call\<close>

lemma perm_get_invalid_again:
  assumes "perm_get_invalid self data h = (r, h', self')"
  shows "(self' = self \<or>
          (\<exists>d. dependencies self = Some d \<and>
               self' = self\<lparr>dependencies := Some (d\<lparr>permutation_invariant := True\<rparr>)\<rparr>)) \<and>
         perm_get_invalid self' data h = (r, h', self')"
proof (cases "perm_pre (parameters self) (h ! data)")
  case False
  from perm_get_invalid_fail[OF False] assms have "self' = self" by simp
  with assms show ?thesis by simp
next
  case True
  note char = perm_get_invalid_pre[OF True]
  show ?thesis
  proof (cases "dependencies self")
    case None
    with char assms have "self' = self" by simp
    with assms show ?thesis by simp
  next
    case (Some d)
    let ?d' = "d\<lparr>permutation_invariant := True\<rparr>"
    let ?p' = "self\<lparr>dependencies := Some ?d'\<rparr>"
    obtain r3 h3 where d3: "dep_get_invalid ?d' (length h)
        (h @ [perm_dropped (parameters self) (h ! data)]) = (r3, h3)"
      by (cases "dep_get_invalid ?d' (length h) (h @ [perm_dropped (parameters self) (h ! data)])")
    from char Some d3 assms have s': "self' = ?p'" by (cases r3) auto
    have pre': "perm_pre (parameters ?p') (h ! data)" using True by simp
    have "perm_get_invalid ?p' data h = perm_get_invalid self data h"
      unfolding perm_get_invalid_pre[OF pre'] char
      by (simp add: Some split: prod.splits sum.splits)
    with assms s' Some show ?thesis by simp
  qed
qed

lemma perm_get_invalid_state:
  assumes "perm_get_invalid self data h = (r, h', self')"
  shows "self' =
           (case dependencies self of
              None \<Rightarrow> self
            | Some d \<Rightarrow>
                if isl (fst (perm_get_invalid (self\<lparr>dependencies := None\<rparr>) data h)) then self
                else self\<lparr>dependencies := Some (d\<lparr>permutation_invariant := True\<rparr>)\<rparr>)"
proof (cases "perm_pre (parameters self) (h ! data)")
  case False
  from perm_get_invalid_fail[OF False] assms have s: "self' = self" by simp
  from False have "\<not> perm_pre (parameters (self\<lparr>dependencies := None\<rparr>)) (h ! data)" by simp
  from perm_get_invalid_fail[OF this]
  have "isl (fst (perm_get_invalid (self\<lparr>dependencies := None\<rparr>) data h))" by simp
  with s show ?thesis by (simp split: option.splits)
next
  case True
  note char = perm_get_invalid_pre[OF True]
  show ?thesis
  proof (cases "dependencies self")
    case None
    with char assms show ?thesis by simp
  next
    case (Some d)
    let ?d' = "d\<lparr>permutation_invariant := True\<rparr>"
    obtain r3 h3 where d3: "dep_get_invalid ?d' (length h)
        (h @ [perm_dropped (parameters self) (h ! data)]) = (r3, h3)"
      by (cases "dep_get_invalid ?d' (length h) (h @ [perm_dropped (parameters self) (h ! data)])")
    from char Some d3 assms have s': "self' = self\<lparr>dependencies := Some ?d'\<rparr>"
      by (cases r3) auto
    from True have "perm_pre (parameters (self\<lparr>dependencies := None\<rparr>)) (h ! data)" by simp
    from perm_get_invalid_pre[OF this]
    have "\<not> isl (fst (perm_get_invalid (self\<lparr>dependencies := None\<rparr>) data h))" by simp
    with s' Some show ?thesis by simp
  qed
qed

text \<open>
  C3, as the code has it: a call of \<open>get_invalid\<close> leaves every constraint as it was, with
  one exception. A \<open>PermutationInvarianceConstraint\<close> with a dependency constraint comes
  back with the \<open>permutation_invariant\<close> flag of that constraint set in every call that
  reaches the dependency stage, that is, whenever the stages before it raise no
  exception (the call on the same constraint without dependencies succeeds), whether
  the dependency evaluation then succeeds or fails; in every other call it comes back
  as it was. The assignment is part of the call. A second call on the same store with
  the constraint as the first call left it returns the same result and leaves the
  constraint unchanged.
\<close>

theorem constraint_after_get_invalid:
  "case get_invalid c data h of
     (r, h', c') \<Rightarrow>
       c' = (case c of
               PermutationInvariance p \<Rightarrow>
                 (case dependencies p of
                    None \<Rightarrow> c
                  | Some d \<Rightarrow>
                      if isl (fst (perm_get_invalid (p\<lparr>dependencies := None\<rparr>) data h)) then c
                      else PermutationInvariance
                             (p\<lparr>dependencies := Some (d\<lparr>permutation_invariant := True\<rparr>)\<rparr>))
             | _ \<Rightarrow> c) \<and>
       get_invalid c' data h = (r, h', c')"
proof (cases c)
  case (PermutationInvariance p)
  obtain r h' p' where g: "perm_get_invalid p data h = (r, h', p')"
    by (cases "perm_get_invalid p data h")
  from perm_get_invalid_again[OF g] have again: "perm_get_invalid p' data h = (r, h', p')"
    by simp
  from perm_get_invalid_state[OF g] g again PermutationInvariance show ?thesis
    by (simp split: option.splits)
next
  case (Dependencies self)
  then show ?thesis by (cases "dep_get_invalid self data h") simp
qed simp_all

text \<open>
  Three calls: one that succeeds, one whose dependency evaluation fails on a missing
  governing column, and one that fails before the dependency stage on a missing
  parameter column. The flag is set in the first two.
\<close>

theorem constraint_after_get_invalid_witness:
  "get_invalid (PermutationInvariance example_perm) 0 [example_solvents]
     = (Inr [1, 2, 4], fst (snd (get_invalid (PermutationInvariance example_perm) 0 [example_solvents])),
        PermutationInvariance
          (example_perm\<lparr>dependencies := Some (example_dep\<lparr>permutation_invariant := True\<rparr>)\<rparr>)) \<and>
   get_invalid (snd (snd (get_invalid (PermutationInvariance example_perm) 0 [example_solvents])))
       0 [example_solvents]
     = get_invalid (PermutationInvariance example_perm) 0 [example_solvents] \<and>
   permutation_invariant example_dep_missing = False \<and>
   dependencies example_perm_missing = Some example_dep_missing \<and>
   get_invalid (PermutationInvariance example_perm_missing) 0 [example_solvents]
     = (Inl KeyError,
        fst (snd (get_invalid (PermutationInvariance example_perm_missing) 0 [example_solvents])),
        PermutationInvariance
          (example_perm_missing\<lparr>dependencies :=
             Some (example_dep_missing\<lparr>permutation_invariant := True\<rparr>)\<rparr>)) \<and>
   get_invalid (PermutationInvariance (example_perm\<lparr>parameters := [''s1'', ''s3'']\<rparr>)) 0
       [example_solvents]
     = (Inl KeyError, [example_solvents],
        PermutationInvariance (example_perm\<lparr>parameters := [''s1'', ''s3'']\<rparr>))"
proof -
  let ?g = "\<lambda>p. get_invalid (PermutationInvariance p) 0 [example_solvents]"
  let ?bad = "example_perm\<lparr>parameters := [''s1'', ''s3'']\<rparr>"
  have r1: "fst (perm_get_invalid example_perm 0 [example_solvents]) = Inr [1, 2, 4]"
    by code_simp
  have r2: "fst (perm_get_invalid example_perm_missing 0 [example_solvents]) = Inl KeyError"
    by code_simp
  have r3: "fst (perm_get_invalid ?bad 0 [example_solvents]) = Inl KeyError"
    "fst (snd (perm_get_invalid ?bad 0 [example_solvents])) = [example_solvents]"
    by code_simp+
  have n1: "\<not> isl (fst (perm_get_invalid (example_perm\<lparr>dependencies := None\<rparr>) 0
                        [example_solvents]))"
    by code_simp
  have n2: "\<not> isl (fst (perm_get_invalid (example_perm_missing\<lparr>dependencies := None\<rparr>) 0
                        [example_solvents]))"
    by code_simp
  have n3: "isl (fst (perm_get_invalid (?bad\<lparr>dependencies := None\<rparr>) 0 [example_solvents]))"
    by code_simp
  have d1: "dependencies example_perm = Some example_dep"
    and d2: "dependencies example_perm_missing = Some example_dep_missing"
    and d3: "dependencies ?bad = Some example_dep"
    and f2: "permutation_invariant example_dep_missing = False"
    by (simp_all add: example_perm_def example_perm_missing_def example_dep_missing_def)
  have g1: "fst (?g example_perm) = Inr [1, 2, 4]"
    and g2: "fst (?g example_perm_missing) = Inl KeyError"
    and g3: "fst (?g ?bad) = Inl KeyError" "fst (snd (?g ?bad)) = [example_solvents]"
    using r1 r2 r3 by (simp_all add: case_prod_unfold)
  from constraint_after_get_invalid[of "PermutationInvariance example_perm" 0 "[example_solvents]"]
    g1 n1 d1
  have c1: "?g example_perm
     = (Inr [1, 2, 4], fst (snd (?g example_perm)),
        PermutationInvariance
          (example_perm\<lparr>dependencies := Some (example_dep\<lparr>permutation_invariant := True\<rparr>)\<rparr>))"
    and c1': "get_invalid (snd (snd (?g example_perm))) 0 [example_solvents] = ?g example_perm"
    by (cases "?g example_perm"; simp)+
  from constraint_after_get_invalid[of "PermutationInvariance example_perm_missing" 0
      "[example_solvents]"] g2 n2 d2
  have c2: "?g example_perm_missing
     = (Inl KeyError, fst (snd (?g example_perm_missing)),
        PermutationInvariance
          (example_perm_missing\<lparr>dependencies :=
             Some (example_dep_missing\<lparr>permutation_invariant := True\<rparr>)\<rparr>))"
    by (cases "?g example_perm_missing") simp
  from constraint_after_get_invalid[of "PermutationInvariance ?bad" 0 "[example_solvents]"]
    g3 n3 d3
  have c3: "?g ?bad = (Inl KeyError, [example_solvents], PermutationInvariance ?bad)"
    by (cases "?g ?bad") simp
  from c1 c1' c2 c3 f2 d2 show ?thesis by (simp only: simp_thms)
qed

text \<open>
  The flag of the nested dependency constraint is \<open>False\<close> as the constructor leaves it,
  before the first call of \<open>get_invalid\<close>, and \<open>True\<close> after it: the call itself writes
  the field.
\<close>

theorem constraint_unchanged_counterexample:
  "new_DependenciesConstraint [''f1'', ''f2'']
       [Threshold \<lparr>threshold = 0, operator = ''>'', tolerance = None\<rparr>,
        Threshold \<lparr>threshold = 0, operator = ''>'', tolerance = None\<rparr>]
       [[''s1''], [''s2'']] = Inr example_dep \<and>
   permutation_invariant example_dep = False \<and>
   dependencies example_perm = Some example_dep \<and>
   snd (snd (get_invalid (PermutationInvariance example_perm) 0 [example_solvents]))
     = PermutationInvariance
         (example_perm\<lparr>dependencies := Some (example_dep\<lparr>permutation_invariant := True\<rparr>)\<rparr>) \<and>
   snd (snd (get_invalid (PermutationInvariance example_perm) 0 [example_solvents]))
     \<noteq> PermutationInvariance example_perm"
proof -
  have c: "new_DependenciesConstraint [''f1'', ''f2'']
       [Threshold \<lparr>threshold = 0, operator = ''>'', tolerance = None\<rparr>,
        Threshold \<lparr>threshold = 0, operator = ''>'', tolerance = None\<rparr>]
       [[''s1''], [''s2'']] = Inr example_dep"
    by (simp add: new_DependenciesConstraint_def validate_params_def example_dep_def)
  have p: "snd (snd (perm_get_invalid example_perm 0 [example_solvents]))
     = example_perm\<lparr>dependencies := Some (example_dep\<lparr>permutation_invariant := True\<rparr>)\<rparr>"
    by code_simp
  have s: "snd (snd (get_invalid (PermutationInvariance example_perm) 0 [example_solvents]))
     = PermutationInvariance
         (example_perm\<lparr>dependencies := Some (example_dep\<lparr>permutation_invariant := True\<rparr>)\<rparr>)"
    using p by (simp add: case_prod_unfold)
  have n: "PermutationInvariance
         (example_perm\<lparr>dependencies := Some (example_dep\<lparr>permutation_invariant := True\<rparr>)\<rparr>)
     \<noteq> PermutationInvariance example_perm"
    by (simp add: example_perm_def example_dep_def)
  show ?thesis using c s n by (simp add: example_perm_def example_dep_def)
qed

end
